theory Spec2Isabelle
  imports Main "HOL-Library.Sublist"
begin

section \<open>Go library functions used by package tsconfig\<close>

text \<open>
  A Go \<^verbatim>\<open>string\<close> is a sequence of bytes; it is modelled as a \<^typ>\<open>string\<close>, one
  \<^typ>\<open>char\<close> per byte. The three library functions the package calls
  (\<^verbatim>\<open>strings.TrimSpace\<close>, \<^verbatim>\<open>strings.ReplaceAll\<close>, \<^verbatim>\<open>filepath.Dir\<close>) are written out
  after the Go standard library.
\<close>

subsection \<open>strings.TrimSpace\<close>

text \<open>
  The UTF-8 encodings of the code points for which \<^verbatim>\<open>unicode.IsSpace\<close> holds:
  U+0009..U+000D, U+0020, U+0085, U+00A0, U+1680, U+2000..U+200A, U+2028, U+2029,
  U+202F, U+205F, U+3000.
\<close>

definition space_runes :: "string list" where
  "space_runes =
    [[CHR 0x09], [CHR 0x0A], [CHR 0x0B], [CHR 0x0C], [CHR 0x0D], [CHR 0x20],
     [CHR 0xC2, CHR 0x85], [CHR 0xC2, CHR 0xA0],
     [CHR 0xE1, CHR 0x9A, CHR 0x80],
     [CHR 0xE2, CHR 0x80, CHR 0x80], [CHR 0xE2, CHR 0x80, CHR 0x81],
     [CHR 0xE2, CHR 0x80, CHR 0x82], [CHR 0xE2, CHR 0x80, CHR 0x83],
     [CHR 0xE2, CHR 0x80, CHR 0x84], [CHR 0xE2, CHR 0x80, CHR 0x85],
     [CHR 0xE2, CHR 0x80, CHR 0x86], [CHR 0xE2, CHR 0x80, CHR 0x87],
     [CHR 0xE2, CHR 0x80, CHR 0x88], [CHR 0xE2, CHR 0x80, CHR 0x89],
     [CHR 0xE2, CHR 0x80, CHR 0x8A],
     [CHR 0xE2, CHR 0x80, CHR 0xA8], [CHR 0xE2, CHR 0x80, CHR 0xA9],
     [CHR 0xE2, CHR 0x80, CHR 0xAF],
     [CHR 0xE2, CHR 0x81, CHR 0x9F],
     [CHR 0xE3, CHR 0x80, CHR 0x80]]"

text \<open>
  \<^verbatim>\<open>TrimLeftFunc(s, unicode.IsSpace)\<close>: decode the rune at the front and drop it while
  it is white space. A rune decodes to a white-space code point exactly when the
  bytes at the front are one of the encodings above (an invalid encoding decodes to
  U+FFFD of width one, which is not white space).
\<close>

definition leading_space :: "string \<Rightarrow> string option" where
  "leading_space s = find (\<lambda>e. prefix e s) space_runes"

function TrimLeftSpace :: "string \<Rightarrow> string" where
  "TrimLeftSpace s =
     (case leading_space s of
        None \<Rightarrow> s
      | Some e \<Rightarrow> TrimLeftSpace (drop (length e) s))"
  by pat_completeness auto
termination
proof (relation "measure length")
  show "wf (measure length)" by simp
next
  fix s e
  assume "leading_space s = Some e"
  then have e: "e \<in> set space_runes" and p: "prefix e s"
    by (auto simp: leading_space_def find_Some_iff)
  from e have "e \<noteq> []" by (auto simp: space_runes_def)
  with p have "s \<noteq> []" by auto
  with \<open>e \<noteq> []\<close> show "(drop (length e) s, s) \<in> measure length" by simp
qed

text \<open>
  \<^verbatim>\<open>TrimRightFunc(s, unicode.IsSpace)\<close>: decode the last rune and drop it while it is
  white space. \<^verbatim>\<open>utf8.DecodeLastRuneInString\<close> yields a white-space code point exactly
  when the bytes at the end are one of the encodings above.
\<close>

definition trailing_space :: "string \<Rightarrow> string option" where
  "trailing_space s = find (\<lambda>e. suffix e s) space_runes"

function TrimRightSpace :: "string \<Rightarrow> string" where
  "TrimRightSpace s =
     (case trailing_space s of
        None \<Rightarrow> s
      | Some e \<Rightarrow> TrimRightSpace (take (length s - length e) s))"
  by pat_completeness auto
termination
proof (relation "measure length")
  show "wf (measure length)" by simp
next
  fix s e
  assume "trailing_space s = Some e"
  then have e: "e \<in> set space_runes" and p: "suffix e s"
    by (auto simp: trailing_space_def find_Some_iff)
  from e have "e \<noteq> []" by (auto simp: space_runes_def)
  with p have "s \<noteq> []" by auto
  with \<open>e \<noteq> []\<close> show "(take (length s - length e) s, s) \<in> measure length" by simp
qed

text \<open>
  \<^verbatim>\<open>strings.TrimSpace(s)\<close> returns \<^verbatim>\<open>s\<close> with all leading and trailing white space
  removed, as defined by Unicode: the front is trimmed first, then the end of what is
  left.
\<close>

definition TrimSpace :: "string \<Rightarrow> string" where
  "TrimSpace s = TrimRightSpace (TrimLeftSpace s)"

subsection \<open>strings.ReplaceAll\<close>

text \<open>
  \<^verbatim>\<open>strings.Index(s, substr)\<close>: the index of the first instance of \<^verbatim>\<open>substr\<close> in
  \<^verbatim>\<open>s\<close>; Go's \<^verbatim>\<open>-1\<close> for no instance is \<^term>\<open>None\<close>.
\<close>

fun Index :: "string \<Rightarrow> string \<Rightarrow> nat option" where
  "Index [] substr = (if substr = [] then Some 0 else None)"
| "Index (c # cs) substr =
     (if prefix substr (c # cs) then Some 0 else map_option Suc (Index cs substr))"

text \<open>
  \<^verbatim>\<open>strings.ReplaceAll(s, old, new)\<close> for a non-empty \<^verbatim>\<open>old\<close>: the loop of
  \<^verbatim>\<open>strings.Replace\<close> writes the bytes up to the next instance found by \<^verbatim>\<open>Index\<close>,
  then \<^verbatim>\<open>new\<close>, and goes on behind the instance; the rest of the string is written
  after the last instance. Instances are thus taken from left to right and do not
  overlap. The package passes the constant placeholder token as \<^verbatim>\<open>old\<close>; Go's
  treatment of an empty \<^verbatim>\<open>old\<close> (an insertion around every rune) is never reached
  and is not modelled: the string is returned as it is.
\<close>

function ReplaceAll :: "string \<Rightarrow> string \<Rightarrow> string \<Rightarrow> string" where
  "ReplaceAll s old new =
     (if old = [] then s
      else case Index s old of
             None \<Rightarrow> s
           | Some j \<Rightarrow> take j s @ new @ ReplaceAll (drop (j + length old) s) old new)"
  by pat_completeness auto
termination
proof (relation "measure (\<lambda>(s, old, new). length s)")
  show "wf (measure (\<lambda>(s, old, new). length s))" by simp
next
  fix s old new :: string and j
  assume old: "old \<noteq> []" and idx: "Index s old = Some j"
  have "\<And>j. Index s old = Some j \<Longrightarrow> j + length old \<le> length s"
  proof (induction s)
    case Nil
    then show ?case by (simp split: if_splits)
  next
    case (Cons c cs)
    then show ?case by (auto split: if_splits dest: prefix_length_le)
  qed
  from this [OF idx] old
  show "((drop (j + length old) s, old, new), (s, old, new))
          \<in> measure (\<lambda>(s, old, new). length s)"
    by (cases old) auto
qed

subsection \<open>filepath.Dir\<close>

text \<open>
  The path functions are those of a Unix build of Go: the separator is the slash and
  there are no volume names.
\<close>

definition Separator :: char where
  "Separator = CHR ''/''"

definition IsPathSeparator :: "char \<Rightarrow> bool" where
  "IsPathSeparator c = (c = Separator)"

text \<open>The path elements: the pieces of the path between separators.\<close>

fun elements :: "string \<Rightarrow> string list" where
  "elements [] = [[]]"
| "elements (c # cs) =
     (if IsPathSeparator c then [] # elements cs
      else case elements cs of
             [] \<Rightarrow> [[c]]
           | e # es \<Rightarrow> (c # e) # es)"

text \<open>
  One round of the loop of \<^verbatim>\<open>filepath.Clean\<close>, on the output buffer kept as the
  stack of the elements written so far (the last one first). An empty element and
  \<^verbatim>\<open>.\<close> are skipped; \<^verbatim>\<open>..\<close> removes the last element written when there is one
  to backtrack over, is kept at the front of an unrooted path, and is dropped at the
  front of a rooted one.
\<close>

definition clean_elem :: "bool \<Rightarrow> string list \<Rightarrow> string \<Rightarrow> string list" where
  "clean_elem rooted out e =
     (if e = [] \<or> e = ''.'' then out
      else if e = ''..'' then
        (case out of
           [] \<Rightarrow> if rooted then out else [''..'']
         | t # ts \<Rightarrow>
             if t \<noteq> ''..'' then ts
             else if rooted then out else ''..'' # out)
      else e # out)"

fun join_elements :: "string list \<Rightarrow> string" where
  "join_elements [] = []"
| "join_elements [e] = e"
| "join_elements (e # es) = e @ Separator # join_elements es"

definition Clean :: "string \<Rightarrow> string" where
  "Clean path =
     (if path = [] then ''.''
      else
        let rooted = IsPathSeparator (hd path);
            out = foldl (clean_elem rooted) [] (elements path)
        in if rooted then Separator # join_elements (rev out)
           else if out = [] then ''.''
           else join_elements (rev out))"

text \<open>
  \<^verbatim>\<open>filepath.Dir(path)\<close> drops the last element (everything behind the last
  separator) and cleans what is left.
\<close>

definition Dir :: "string \<Rightarrow> string" where
  "Dir path = Clean (rev (dropWhile (\<lambda>c. \<not> IsPathSeparator c) (rev path)))"

section \<open>Package tsconfig\<close>

subsection \<open>Objects and pointers\<close>

text \<open>
  A Go pointer is \<^verbatim>\<open>nil\<close> or the address of an object. \<^verbatim>\<open>Config\<close> objects and
  \<^verbatim>\<open>singlylinkedlist.List\<close> objects live in two arenas of the heap; allocation
  appends to an arena, so that the address of a new object is the length of the arena
  before.
\<close>

datatype ptr = Nil | Ref nat

datatype error = NilPointerDereference | AssignmentToNilMap

type_synonym EnvironmentType = string

definition EnvironmentNode :: EnvironmentType where
  "EnvironmentNode = ''node''"

definition EnvironmentBrowser :: EnvironmentType where
  "EnvironmentBrowser = ''browser''"

definition EnvironmentOther :: EnvironmentType where
  "EnvironmentOther = ''other''"

definition packageNameNamingConventionSubstitution :: string where
  "packageNameNamingConventionSubstitution = ''$package_name$''"

text \<open>
  A Go map value is the \<^verbatim>\<open>nil\<close> map or a map that \<^verbatim>\<open>make\<close> made. Of a
  \<^verbatim>\<open>map[string]struct{}\<close> only the set of keys matters: the \<^verbatim>\<open>nil\<close> map is
  \<^term>\<open>None\<close>. Reading the \<^verbatim>\<open>nil\<close> map finds no key; writing to it panics with
  "assignment to entry in nil map".
\<close>

type_synonym string_set_map = "string set option"

definition map_keys :: "string_set_map \<Rightarrow> string set" where
  "map_keys m = (case m of None \<Rightarrow> {} | Some s \<Rightarrow> s)"

definition assign_key :: "string_set_map \<Rightarrow> string \<Rightarrow> error + string_set_map" where
  "assign_key m k =
     (case m of
        None \<Rightarrow> Inl AssignmentToNilMap
      | Some s \<Rightarrow> Inr (Some (insert k s)))"

text \<open>
  The struct \<^verbatim>\<open>Config\<close>. Both constructors make the map of the field
  \<^verbatim>\<open>ignoreDependencies\<close>; in the zero value of the struct it is the \<^verbatim>\<open>nil\<close> map and
  the list pointer is \<^verbatim>\<open>nil\<close>.
\<close>

record Config =
  parent :: ptr
  generationEnabled :: bool
  repoRoot :: string
  environmentType :: EnvironmentType
  excludedPatterns :: ptr
  ignoreDependencies :: string_set_map
  validateImportStatements :: bool
  libraryNamingConvention :: string
  testNamingConvention :: string

record heap =
  configs :: "Config list"
  lists :: "string list list"

definition empty_heap :: heap where
  "empty_heap = \<lparr>configs = [], lists = []\<rparr>"

text \<open>
  Reading a field through a pointer: a \<^verbatim>\<open>nil\<close> pointer panics with Go's
  "invalid memory address or nil pointer dereference". An address that holds no object
  gets the same error; Go itself never produces such a pointer.
\<close>

definition deref :: "heap \<Rightarrow> ptr \<Rightarrow> error + Config" where
  "deref h p =
     (case p of
        Nil \<Rightarrow> Inl NilPointerDereference
      | Ref a \<Rightarrow>
          if a < length (configs h) then Inr (configs h ! a)
          else Inl NilPointerDereference)"

text \<open>Writing a field through a pointer.\<close>

definition assign :: "heap \<Rightarrow> ptr \<Rightarrow> (Config \<Rightarrow> Config) \<Rightarrow> error + heap" where
  "assign h p f =
     (case p of
        Nil \<Rightarrow> Inl NilPointerDereference
      | Ref a \<Rightarrow>
          if a < length (configs h)
          then Inr (h\<lparr>configs := (configs h)[a := f (configs h ! a)]\<rparr>)
          else Inl NilPointerDereference)"

text \<open>\<^verbatim>\<open>&Config{...}\<close>: a new object, and its address.\<close>

definition alloc :: "heap \<Rightarrow> Config \<Rightarrow> ptr \<times> heap" where
  "alloc h c = (Ref (length (configs h)), h\<lparr>configs := configs h @ [c]\<rparr>)"

subsection \<open>The list of the gods library\<close>

text \<open>
  \<^verbatim>\<open>singlylinkedlist.New()\<close> makes an empty list, \<^verbatim>\<open>Add\<close> appends a value at the
  end and \<^verbatim>\<open>Values\<close> returns the values in order. The package only ever adds strings.
\<close>

definition singlylinkedlist_New :: "heap \<Rightarrow> ptr \<times> heap" where
  "singlylinkedlist_New h = (Ref (length (lists h)), h\<lparr>lists := lists h @ [[]]\<rparr>)"

definition singlylinkedlist_Add :: "heap \<Rightarrow> ptr \<Rightarrow> string \<Rightarrow> error + heap" where
  "singlylinkedlist_Add h l v =
     (case l of
        Nil \<Rightarrow> Inl NilPointerDereference
      | Ref a \<Rightarrow>
          if a < length (lists h)
          then Inr (h\<lparr>lists := (lists h)[a := lists h ! a @ [v]]\<rparr>)
          else Inl NilPointerDereference)"

definition singlylinkedlist_Values :: "heap \<Rightarrow> ptr \<Rightarrow> error + string list" where
  "singlylinkedlist_Values h l =
     (case l of
        Nil \<Rightarrow> Inl NilPointerDereference
      | Ref a \<Rightarrow>
          if a < length (lists h) then Inr (lists h ! a)
          else Inl NilPointerDereference)"

subsection \<open>Configs\<close>

text \<open>
  \<^verbatim>\<open>Configs\<close> is a \<^verbatim>\<open>map[string]*Config\<close>. Indexing a Go map with a key it does not
  hold yields the zero value of the element type, here the \<^verbatim>\<open>nil\<close> pointer.
\<close>

type_synonym Configs = "string \<rightharpoonup> ptr"

definition index_Configs :: "Configs \<Rightarrow> string \<Rightarrow> ptr" where
  "index_Configs c k = (case c k of None \<Rightarrow> Nil | Some p \<Rightarrow> p)"

text \<open>
  \<^verbatim>\<open>ParentForPackage\<close>. The receiver, a pointer to the map, is taken to point to a
  map, and the model passes the map itself: the method reads it and returns a pointer,
  it has no access to the heap.
\<close>

definition ParentForPackage :: "Configs \<Rightarrow> string \<Rightarrow> ptr" where
  "ParentForPackage c pkg =
     (let dir = Dir pkg;
          dir = (if dir = ''.'' then '''' else dir);
          parent = index_Configs c dir
      in parent)"

subsection \<open>Config\<close>

definition New :: "heap \<Rightarrow> string \<Rightarrow> ptr \<times> heap" where
  "New h repoRoot' =
     (let (l, h1) = singlylinkedlist_New h
      in alloc h1
           \<lparr>parent = Nil,
            generationEnabled = True,
            repoRoot = repoRoot',
            environmentType = EnvironmentOther,
            excludedPatterns = l,
            ignoreDependencies = Some {},
            validateImportStatements = True,
            libraryNamingConvention = packageNameNamingConventionSubstitution,
            testNamingConvention = packageNameNamingConventionSubstitution @ ''_test''\<rparr>)"

definition Parent :: "heap \<Rightarrow> ptr \<Rightarrow> error + ptr" where
  "Parent h c = map_sum id parent (deref h c)"

definition NewChild :: "heap \<Rightarrow> ptr \<Rightarrow> error + ptr \<times> heap" where
  "NewChild h c =
     (case deref h c of
        Inl e \<Rightarrow> Inl e
      | Inr cfg \<Rightarrow>
          Inr (alloc h
                 \<lparr>parent = c,
                  generationEnabled = generationEnabled cfg,
                  repoRoot = repoRoot cfg,
                  environmentType = environmentType cfg,
                  excludedPatterns = excludedPatterns cfg,
                  ignoreDependencies = Some {},
                  validateImportStatements = validateImportStatements cfg,
                  libraryNamingConvention = libraryNamingConvention cfg,
                  testNamingConvention = testNamingConvention cfg\<rparr>))"

definition AddExcludedPattern :: "heap \<Rightarrow> ptr \<Rightarrow> string \<Rightarrow> error + heap" where
  "AddExcludedPattern h c pattern =
     (case deref h c of
        Inl e \<Rightarrow> Inl e
      | Inr cfg \<Rightarrow> singlylinkedlist_Add h (excludedPatterns cfg) pattern)"

definition ExcludedPatterns :: "heap \<Rightarrow> ptr \<Rightarrow> error + ptr" where
  "ExcludedPatterns h c = map_sum id excludedPatterns (deref h c)"

definition SetGenerationEnabled :: "heap \<Rightarrow> ptr \<Rightarrow> bool \<Rightarrow> error + heap" where
  "SetGenerationEnabled h c enabled = assign h c (\<lambda>cfg. cfg\<lparr>generationEnabled := enabled\<rparr>)"

definition GenerationEnabled :: "heap \<Rightarrow> ptr \<Rightarrow> error + bool" where
  "GenerationEnabled h c = map_sum id generationEnabled (deref h c)"

text \<open>\<^verbatim>\<open>FindThirdPartyDependency\<close> never touches its receiver.\<close>

definition FindThirdPartyDependency :: "heap \<Rightarrow> ptr \<Rightarrow> string \<Rightarrow> string \<times> bool" where
  "FindThirdPartyDependency h c modName = ('''', False)"

definition AddIgnoreDependency :: "heap \<Rightarrow> ptr \<Rightarrow> string \<Rightarrow> error + heap" where
  "AddIgnoreDependency h c dep =
     (case deref h c of
        Inl e \<Rightarrow> Inl e
      | Inr cfg \<Rightarrow>
          (case assign_key (ignoreDependencies cfg) (TrimSpace dep) of
             Inl e \<Rightarrow> Inl e
           | Inr m \<Rightarrow> assign h c (\<lambda>cfg. cfg\<lparr>ignoreDependencies := m\<rparr>)))"

text \<open>
  The loop of \<^verbatim>\<open>IgnoresDependency\<close> follows the parent pointers until it meets
  \<^verbatim>\<open>nil\<close>. On a heap whose parent pointers form a cycle it runs forever: the value
  \<^term>\<open>None\<close> stands for that.
\<close>

partial_function (option) IgnoresDependency_loop ::
    "heap \<Rightarrow> ptr \<Rightarrow> string \<Rightarrow> (error + bool) option" where
  "IgnoresDependency_loop h p trimmedDep =
     (case p of
        Nil \<Rightarrow> Some (Inr False)
      | Ref a \<Rightarrow>
          (case deref h p of
             Inl e \<Rightarrow> Some (Inl e)
           | Inr pcfg \<Rightarrow>
               if trimmedDep \<in> map_keys (ignoreDependencies pcfg) then Some (Inr True)
               else IgnoresDependency_loop h (parent pcfg) trimmedDep))"

declare IgnoresDependency_loop.simps [code]

definition IgnoresDependency :: "heap \<Rightarrow> ptr \<Rightarrow> string \<Rightarrow> (error + bool) option" where
  "IgnoresDependency h c dep =
     (let trimmedDep = TrimSpace dep
      in case deref h c of
           Inl e \<Rightarrow> Some (Inl e)
         | Inr cfg \<Rightarrow>
             if trimmedDep \<in> map_keys (ignoreDependencies cfg) then Some (Inr True)
             else IgnoresDependency_loop h (parent cfg) trimmedDep)"

definition SetValidateImportStatements :: "heap \<Rightarrow> ptr \<Rightarrow> bool \<Rightarrow> error + heap" where
  "SetValidateImportStatements h c validate =
     assign h c (\<lambda>cfg. cfg\<lparr>validateImportStatements := validate\<rparr>)"

definition ValidateImportStatements :: "heap \<Rightarrow> ptr \<Rightarrow> error + bool" where
  "ValidateImportStatements h c = map_sum id validateImportStatements (deref h c)"

definition SetEnvironmentType :: "heap \<Rightarrow> ptr \<Rightarrow> EnvironmentType \<Rightarrow> error + heap" where
  "SetEnvironmentType h c envType = assign h c (\<lambda>cfg. cfg\<lparr>environmentType := envType\<rparr>)"

definition SetLibraryNamingConvention :: "heap \<Rightarrow> ptr \<Rightarrow> string \<Rightarrow> error + heap" where
  "SetLibraryNamingConvention h c libraryNamingConvention' =
     assign h c (\<lambda>cfg. cfg\<lparr>libraryNamingConvention := libraryNamingConvention'\<rparr>)"

definition RenderLibraryName :: "heap \<Rightarrow> ptr \<Rightarrow> string \<Rightarrow> error + string" where
  "RenderLibraryName h c packageName =
     map_sum id
       (\<lambda>cfg. ReplaceAll (libraryNamingConvention cfg)
                 packageNameNamingConventionSubstitution packageName)
       (deref h c)"

definition SetTestNamingConvention :: "heap \<Rightarrow> ptr \<Rightarrow> string \<Rightarrow> error + heap" where
  "SetTestNamingConvention h c testNamingConvention' =
     assign h c (\<lambda>cfg. cfg\<lparr>testNamingConvention := testNamingConvention'\<rparr>)"

definition RenderTestName :: "heap \<Rightarrow> ptr \<Rightarrow> string \<Rightarrow> error + string" where
  "RenderTestName h c packageName =
     map_sum id
       (\<lambda>cfg. ReplaceAll (testNamingConvention cfg)
                 packageNameNamingConventionSubstitution packageName)
       (deref h c)"

subsection \<open>Notions used to state the properties\<close>

text \<open>
  What a caller sees of the exclusion list of a node:
  \<^verbatim>\<open>c.ExcludedPatterns().Values()\<close>.
\<close>

definition ExcludedPatterns_Values :: "heap \<Rightarrow> ptr \<Rightarrow> error + string list" where
  "ExcludedPatterns_Values h c =
     (case ExcludedPatterns h c of
        Inl e \<Rightarrow> Inl e
      | Inr l \<Rightarrow> singlylinkedlist_Values h l)"

text \<open>The settings that \<^verbatim>\<open>NewChild\<close> copies by value.\<close>

definition scalar_settings ::
    "Config \<Rightarrow> bool \<times> string \<times> EnvironmentType \<times> bool \<times> string \<times> string" where
  "scalar_settings cfg =
     (generationEnabled cfg, repoRoot cfg, environmentType cfg,
      validateImportStatements cfg, libraryNamingConvention cfg, testNamingConvention cfg)"

text \<open>
  The heaps that \<^verbatim>\<open>New\<close> and \<^verbatim>\<open>NewChild\<close> build: the parent of a node was allocated
  before the node, and the exclusion list of every node exists. The fields of
  \<^verbatim>\<open>Config\<close> are not exported, so no other code can set them.
\<close>

definition wf_heap :: "heap \<Rightarrow> bool" where
  "wf_heap h \<longleftrightarrow>
     (\<forall>a \<in> {..<length (configs h)}.
        (case parent (configs h ! a) of Nil \<Rightarrow> True | Ref b \<Rightarrow> b < a) \<and>
        (case excludedPatterns (configs h ! a) of
           Nil \<Rightarrow> False
         | Ref l \<Rightarrow> l < length (lists h)))"

text \<open>
  \<open>ancestor h a b\<close>: the node at address \<open>a\<close> is reached from the node at address
  \<open>b\<close> by following one or more parent pointers.
\<close>

inductive ancestor :: "heap \<Rightarrow> nat \<Rightarrow> nat \<Rightarrow> bool" for h :: heap where
  ancestor_parent:
    "b < length (configs h) \<Longrightarrow> parent (configs h ! b) = Ref a \<Longrightarrow> ancestor h a b"
| ancestor_step:
    "b < length (configs h) \<Longrightarrow> parent (configs h ! b) = Ref m \<Longrightarrow> ancestor h a m
     \<Longrightarrow> ancestor h a b"

code_pred ancestor .

text \<open>
  \<open>method_call h c h'\<close>: some method of \<^verbatim>\<open>Config\<close> that writes, called on the receiver
  \<open>c\<close> in the heap \<open>h\<close>, returns and leaves the heap \<open>h'\<close>.
\<close>

inductive method_call :: "heap \<Rightarrow> ptr \<Rightarrow> heap \<Rightarrow> bool" where
  call_AddExcludedPattern:
    "AddExcludedPattern h c pattern = Inr h' \<Longrightarrow> method_call h c h'"
| call_SetGenerationEnabled:
    "SetGenerationEnabled h c enabled = Inr h' \<Longrightarrow> method_call h c h'"
| call_AddIgnoreDependency:
    "AddIgnoreDependency h c dep = Inr h' \<Longrightarrow> method_call h c h'"
| call_SetValidateImportStatements:
    "SetValidateImportStatements h c validate = Inr h' \<Longrightarrow> method_call h c h'"
| call_SetEnvironmentType:
    "SetEnvironmentType h c envType = Inr h' \<Longrightarrow> method_call h c h'"
| call_SetLibraryNamingConvention:
    "SetLibraryNamingConvention h c t = Inr h' \<Longrightarrow> method_call h c h'"
| call_SetTestNamingConvention:
    "SetTestNamingConvention h c t = Inr h' \<Longrightarrow> method_call h c h'"

text \<open>
  \<open>mutation h h'\<close>: one operation of the package that changes the heap: a constructor
  or a writing method on any receiver.
\<close>

inductive mutation :: "heap \<Rightarrow> heap \<Rightarrow> bool" where
  mutation_New: "New h r = (c, h') \<Longrightarrow> mutation h h'"
| mutation_NewChild: "NewChild h c = Inr (c', h') \<Longrightarrow> mutation h h'"
| mutation_call: "method_call h c h' \<Longrightarrow> mutation h h'"

text \<open>
  The segments of a template joined by a separator: \<open>join_segments sep [p, q, r]\<close> is
  \<open>p @ sep @ q @ sep @ r\<close>.
\<close>

fun join_segments :: "string \<Rightarrow> string list \<Rightarrow> string" where
  "join_segments sep [] = []"
| "join_segments sep [p] = p"
| "join_segments sep (p # ps) = p @ sep @ join_segments sep ps"

text \<open>
  The segments between the instances of the token that a scan from the left finds: the
  token has no instance that begins inside a segment.
\<close>

definition token_segments :: "string \<Rightarrow> string list \<Rightarrow> bool" where
  "token_segments tok ps \<longleftrightarrow>
     ps \<noteq> [] \<and>
     (\<forall>p \<in> set (butlast ps). \<not> sublist tok (p @ butlast tok)) \<and>
     \<not> sublist tok (last ps)"

text \<open>
  The scenario of a walk over three packages: the root, the package \<^verbatim>\<open>a\<close> derived from
  it and the package \<^verbatim>\<open>a/b\<close> derived from \<^verbatim>\<open>a\<close>, with \<^verbatim>\<open>left-pad\<close> ignored at
  \<^verbatim>\<open>a\<close>.
\<close>

definition scenario_heap :: heap where
  "scenario_heap =
     \<lparr>configs =
        [\<lparr>parent = Nil, generationEnabled = True, repoRoot = ''/repo'',
          environmentType = ''other'', excludedPatterns = Ref 0,
          ignoreDependencies = Some {}, validateImportStatements = True,
          libraryNamingConvention = ''$package_name$'',
          testNamingConvention = ''$package_name$_test''\<rparr>,
         \<lparr>parent = Ref 0, generationEnabled = True, repoRoot = ''/repo'',
          environmentType = ''other'', excludedPatterns = Ref 0,
          ignoreDependencies = Some {''left-pad''}, validateImportStatements = True,
          libraryNamingConvention = ''$package_name$'',
          testNamingConvention = ''$package_name$_test''\<rparr>,
         \<lparr>parent = Ref 1, generationEnabled = True, repoRoot = ''/repo'',
          environmentType = ''other'', excludedPatterns = Ref 0,
          ignoreDependencies = Some {}, validateImportStatements = True,
          libraryNamingConvention = ''$package_name$'',
          testNamingConvention = ''$package_name$_test''\<rparr>],
      lists = [[]]\<rparr>"

section \<open>Properties of the library functions\<close>

declare TrimLeftSpace.simps [simp del]
declare TrimRightSpace.simps [simp del]
declare ReplaceAll.simps [simp del]

subsection \<open>Trimming twice is trimming once\<close>

lemma TrimLeftSpace_fixed: "leading_space s = None \<Longrightarrow> TrimLeftSpace s = s"
  by (subst TrimLeftSpace.simps) simp

lemma TrimRightSpace_fixed: "trailing_space s = None \<Longrightarrow> TrimRightSpace s = s"
  by (subst TrimRightSpace.simps) simp

lemma leading_space_TrimLeftSpace: "leading_space (TrimLeftSpace s) = None"
proof (induction s rule: TrimLeftSpace.induct)
  case (1 s)
  show ?case
  proof (cases "leading_space s")
    case None
    then show ?thesis by (simp add: TrimLeftSpace_fixed)
  next
    case (Some e)
    with 1 show ?thesis by (subst TrimLeftSpace.simps) simp
  qed
qed

lemma trailing_space_TrimRightSpace: "trailing_space (TrimRightSpace s) = None"
proof (induction s rule: TrimRightSpace.induct)
  case (1 s)
  show ?case
  proof (cases "trailing_space s")
    case None
    then show ?thesis by (simp add: TrimRightSpace_fixed)
  next
    case (Some e)
    with 1 show ?thesis by (subst TrimRightSpace.simps) simp
  qed
qed

lemma prefix_TrimRightSpace: "prefix (TrimRightSpace s) s"
proof (induction s rule: TrimRightSpace.induct)
  case (1 s)
  show ?case
  proof (cases "trailing_space s")
    case None
    then show ?thesis by (simp add: TrimRightSpace_fixed)
  next
    case (Some e)
    with 1 have "prefix (TrimRightSpace (take (length s - length e) s))
                   (take (length s - length e) s)"
      by simp
    also have "prefix (take (length s - length e) s) s"
      by (rule take_is_prefix)
    finally show ?thesis using Some by (subst TrimRightSpace.simps) simp
  qed
qed

text \<open>A string that does not begin with white space has no prefix that does.\<close>

lemma leading_space_prefix:
  assumes "leading_space t = None" and "prefix u t"
  shows "leading_space u = None"
proof -
  from assms(1) have "\<forall>e \<in> set space_runes. \<not> prefix e t"
    by (simp add: leading_space_def find_None_iff)
  with assms(2) have "\<forall>e \<in> set space_runes. \<not> prefix e u"
    using prefix_order.trans by blast
  then show ?thesis by (simp add: leading_space_def find_None_iff)
qed

lemma TrimSpace_idem: "TrimSpace (TrimSpace s) = TrimSpace s"
proof -
  have "leading_space (TrimSpace s) = None"
    unfolding TrimSpace_def
    by (rule leading_space_prefix [OF leading_space_TrimLeftSpace prefix_TrimRightSpace])
  then have "TrimLeftSpace (TrimSpace s) = TrimSpace s"
    by (rule TrimLeftSpace_fixed)
  moreover have "TrimRightSpace (TrimSpace s) = TrimSpace s"
    unfolding TrimSpace_def by (rule TrimRightSpace_fixed [OF trailing_space_TrimRightSpace])
  ultimately show ?thesis by (simp add: TrimSpace_def [of "TrimSpace s"])
qed

section \<open>Properties of the heap\<close>

lemma map_keys_simps [simp]: "map_keys None = {}" "map_keys (Some s) = s"
  by (simp_all add: map_keys_def)

lemma deref_Ref: "a < length (configs h) \<Longrightarrow> deref h (Ref a) = Inr (configs h ! a)"
  by (simp add: deref_def)

lemma deref_Inr_iff:
  "deref h p = Inr cfg \<longleftrightarrow> (\<exists>a. p = Ref a \<and> a < length (configs h) \<and> cfg = configs h ! a)"
  by (auto simp: deref_def split: ptr.splits)

lemma assign_Inr_iff:
  "assign h p f = Inr h' \<longleftrightarrow>
     (\<exists>a. p = Ref a \<and> a < length (configs h) \<and>
          h' = h\<lparr>configs := (configs h)[a := f (configs h ! a)]\<rparr>)"
  by (auto simp: assign_def split: ptr.splits)

lemma AddIgnoreDependency_Inr_iff:
  "AddIgnoreDependency h c x = Inr h1 \<longleftrightarrow>
     (\<exists>a s. c = Ref a \<and> a < length (configs h) \<and>
            ignoreDependencies (configs h ! a) = Some s \<and>
            h1 = h\<lparr>configs := (configs h)
                   [a := (configs h ! a)\<lparr>ignoreDependencies :=
                           Some (insert (TrimSpace x) s)\<rparr>]\<rparr>)"
proof (cases "deref h c")
  case (Inl e)
  then show ?thesis
    by (auto simp: AddIgnoreDependency_def deref_def split: ptr.splits if_splits)
next
  case (Inr cfg)
  then obtain a where c: "c = Ref a" and a: "a < length (configs h)"
    and cfg: "cfg = configs h ! a"
    by (auto simp: deref_Inr_iff)
  show ?thesis
  proof (cases "ignoreDependencies (configs h ! a)")
    case None
    with Inr cfg c show ?thesis
      by (simp add: AddIgnoreDependency_def assign_key_def)
  next
    case (Some s)
    with Inr cfg c a show ?thesis
      by (auto simp: AddIgnoreDependency_def assign_key_def assign_def)
  qed
qed

text \<open>On a node whose map is the \<^verbatim>\<open>nil\<close> map, such as the zero \<^verbatim>\<open>Config\<close>, the write panics.\<close>

lemma AddIgnoreDependency_nil_map:
  assumes "a < length (configs h)" and "ignoreDependencies (configs h ! a) = None"
  shows "AddIgnoreDependency h (Ref a) x = Inl AssignmentToNilMap"
  using assms by (simp add: AddIgnoreDependency_def deref_Ref assign_key_def)

lemma wf_heap_parent:
  assumes "wf_heap h" and "b < length (configs h)" and "parent (configs h ! b) = Ref a"
  shows "a < b"
proof -
  from assms(1,2) have "case parent (configs h ! b) of Nil \<Rightarrow> True | Ref b' \<Rightarrow> b' < b"
    by (simp add: wf_heap_def)
  with assms(3) show ?thesis by simp
qed

lemma ancestor_less:
  assumes "wf_heap h" and "ancestor h a b"
  shows "a < b \<and> b < length (configs h)"
  using assms(2)
proof (induction rule: ancestor.induct)
  case (ancestor_parent b a)
  with assms(1) show ?case by (auto dest: wf_heap_parent)
next
  case (ancestor_step b m a)
  with assms(1) have "m < b" by (auto dest: wf_heap_parent)
  with ancestor_step show ?case by simp
qed

lemma ancestor_Nil: "parent (configs h ! b) = Nil \<Longrightarrow> \<not> ancestor h a b"
  by (auto elim: ancestor.cases)

lemma ancestor_Ref:
  "b < length (configs h) \<Longrightarrow> parent (configs h ! b) = Ref m \<Longrightarrow>
     ancestor h a b \<longleftrightarrow> a = m \<or> ancestor h a m"
  by (auto elim: ancestor.cases intro: ancestor.intros)

subsection \<open>The walk up the parent chain returns\<close>

lemma IgnoresDependency_loop_Ref:
  assumes "wf_heap h"
  shows "b < length (configs h) \<Longrightarrow>
     IgnoresDependency_loop h (Ref b) d =
       Some (Inr (d \<in> map_keys (ignoreDependencies (configs h ! b)) \<or>
                  (\<exists>a. ancestor h a b \<and> d \<in> map_keys (ignoreDependencies (configs h ! a)))))"
proof (induction b rule: less_induct)
  case (less b)
  show ?case
  proof (cases "d \<in> map_keys (ignoreDependencies (configs h ! b))")
    case True
    with less.prems show ?thesis
      by (subst IgnoresDependency_loop.simps) (simp add: deref_Ref)
  next
    case False
    show ?thesis
    proof (cases "parent (configs h ! b)")
      case Nil
      with False less.prems show ?thesis
        by (subst IgnoresDependency_loop.simps)
           (simp add: deref_Ref ancestor_Nil IgnoresDependency_loop.simps [of h Nil])
    next
      case (Ref m)
      have m: "m < b" by (rule wf_heap_parent [OF assms less.prems Ref])
      with less.prems have "m < length (configs h)" by simp
      with less.IH [OF m] have
        "IgnoresDependency_loop h (Ref m) d =
           Some (Inr (d \<in> map_keys (ignoreDependencies (configs h ! m)) \<or>
                  (\<exists>a. ancestor h a m \<and> d \<in> map_keys (ignoreDependencies (configs h ! a)))))"
        by simp
      moreover have "(d \<in> map_keys (ignoreDependencies (configs h ! m)) \<or>
                  (\<exists>a. ancestor h a m \<and> d \<in> map_keys (ignoreDependencies (configs h ! a))))
            \<longleftrightarrow> (\<exists>a. ancestor h a b \<and> d \<in> map_keys (ignoreDependencies (configs h ! a)))"
        using ancestor_Ref [OF less.prems Ref] by auto
      ultimately show ?thesis using False less.prems Ref
        by (subst IgnoresDependency_loop.simps) (simp add: deref_Ref)
    qed
  qed
qed

lemma IgnoresDependency_parent:
  assumes "wf_heap h" and "b < length (configs h)"
  shows "IgnoresDependency_loop h (parent (configs h ! b)) d =
           Some (Inr (\<exists>a. ancestor h a b \<and> d \<in> map_keys (ignoreDependencies (configs h ! a))))"
proof (cases "parent (configs h ! b)")
  case Nil
  then show ?thesis
    by (simp add: ancestor_Nil IgnoresDependency_loop.simps [of h Nil])
next
  case (Ref m)
  have "m < b" by (rule wf_heap_parent [OF assms Ref])
  with assms(2) have "m < length (configs h)" by simp
  from IgnoresDependency_loop_Ref [OF assms(1) this, of d] Ref
  show ?thesis using ancestor_Ref [OF assms(2) Ref] by auto
qed

lemma IgnoresDependency_wf:
  assumes "wf_heap h" and "n < length (configs h)"
  shows "IgnoresDependency h (Ref n) d =
           Some (Inr (TrimSpace d \<in> map_keys (ignoreDependencies (configs h ! n)) \<or>
                  (\<exists>a. ancestor h a n \<and> TrimSpace d \<in> map_keys (ignoreDependencies (configs h ! a)))))"
  using assms
  by (simp add: IgnoresDependency_def Let_def deref_Ref IgnoresDependency_parent)

subsection \<open>The scenario\<close>

lemma wf_scenario_heap: "wf_heap scenario_heap"
  by code_simp

lemma length_scenario_heap: "length (configs scenario_heap) = 3"
  by (simp add: scenario_heap_def)

lemma ancestor_scenario_1_2: "ancestor scenario_heap 1 2"
  by (rule ancestor_parent) (simp_all add: scenario_heap_def)

lemma ancestor_scenario_0_1: "ancestor scenario_heap 0 1"
  by (rule ancestor_parent) (simp_all add: scenario_heap_def)

lemma TrimSpace_left_pad: "TrimSpace ''left-pad'' = ''left-pad''"
  by code_simp


text \<open>The scenario heap is what the operations build.\<close>

lemma scenario_heap_built:
  "(case New empty_heap ''/repo'' of
      (root, h1) \<Rightarrow>
        (case NewChild h1 root of
           Inl e \<Rightarrow> Inl e
         | Inr (a, h2) \<Rightarrow>
             (case NewChild h2 a of
                Inl e \<Rightarrow> Inl e
              | Inr (b, h3) \<Rightarrow> AddIgnoreDependency h3 a ''left-pad''))) =
   Inr scenario_heap"
  by (simp add: New_def NewChild_def AddIgnoreDependency_def assign_key_def
        singlylinkedlist_New_def alloc_def deref_def assign_def empty_heap_def scenario_heap_def TrimSpace_left_pad
        EnvironmentOther_def packageNameNamingConventionSubstitution_def)

lemma TrimSpace_x: "TrimSpace ''  x  '' = ''x'' \<and> TrimSpace '' x '' = ''x'' \<and> TrimSpace ''x'' = ''x''"
  by code_simp

subsection \<open>What the operations do to the heap\<close>

lemma NewChild_Ref:
  "a < length (configs h) \<Longrightarrow>
     NewChild h (Ref a) =
       Inr (Ref (length (configs h)),
            h\<lparr>configs := configs h @
                 [(configs h ! a)\<lparr>parent := Ref a, ignoreDependencies := Some {}\<rparr>]\<rparr>)"
  by (simp add: NewChild_def deref_Ref alloc_def)

lemma NewChild_Inr:
  assumes "NewChild h c = Inr (c', h')"
  obtains a where "c = Ref a" and "a < length (configs h)"
    and "c' = Ref (length (configs h))"
    and "h' = h\<lparr>configs := configs h @
                 [(configs h ! a)\<lparr>parent := Ref a, ignoreDependencies := Some {}\<rparr>]\<rparr>"
proof -
  from assms obtain cfg where "deref h c = Inr cfg"
    by (auto simp: NewChild_def split: sum.splits)
  then obtain a where c: "c = Ref a" and a: "a < length (configs h)"
    by (auto simp: deref_Inr_iff)
  with assms NewChild_Ref [OF a] that show thesis by simp
qed

text \<open>What a writing method does to the heap: it updates one node or one list.\<close>

lemma method_call_cases:
  assumes "method_call h c h'"
  obtains (config) a f where "c = Ref a" and "a < length (configs h)"
      and "h' = h\<lparr>configs := (configs h)[a := f (configs h ! a)]\<rparr>"
      and "parent (f (configs h ! a)) = parent (configs h ! a)"
      and "excludedPatterns (f (configs h ! a)) = excludedPatterns (configs h ! a)"
      and "map_keys (ignoreDependencies (configs h ! a)) \<subseteq>
           map_keys (ignoreDependencies (f (configs h ! a)))"
      and "ignoreDependencies (configs h ! a) \<noteq> None \<longrightarrow>
           ignoreDependencies (f (configs h ! a)) \<noteq> None"
    | (list) a l v where "c = Ref a" and "a < length (configs h)"
      and "excludedPatterns (configs h ! a) = Ref l" and "l < length (lists h)"
      and "h' = h\<lparr>lists := (lists h)[l := lists h ! l @ [v]]\<rparr>"
  using assms
proof (cases rule: method_call.cases)
  case (call_AddExcludedPattern pattern)
  then obtain a l where "c = Ref a" and "a < length (configs h)"
      and "excludedPatterns (configs h ! a) = Ref l" and "l < length (lists h)"
      and "h' = h\<lparr>lists := (lists h)[l := lists h ! l @ [pattern]]\<rparr>"
    by (auto simp: AddExcludedPattern_def singlylinkedlist_Add_def deref_Inr_iff
        split: sum.splits ptr.splits if_splits)
  then show ?thesis by (rule list)
next
  case (call_SetGenerationEnabled enabled)
  let ?f = "\<lambda>cfg. cfg\<lparr>generationEnabled := enabled\<rparr>"
  from call_SetGenerationEnabled obtain a where "c = Ref a" and "a < length (configs h)"
      and "h' = h\<lparr>configs := (configs h)[a := ?f (configs h ! a)]\<rparr>"
    by (auto simp: SetGenerationEnabled_def assign_Inr_iff)
  then show ?thesis by (rule config [where f = ?f]) auto
next
  case (call_AddIgnoreDependency dep)
  let ?f = "\<lambda>cfg. cfg\<lparr>ignoreDependencies := Some (insert (TrimSpace dep) (map_keys (ignoreDependencies cfg)))\<rparr>"
  from call_AddIgnoreDependency obtain a where "c = Ref a" and "a < length (configs h)"
      and "h' = h\<lparr>configs := (configs h)[a := ?f (configs h ! a)]\<rparr>"
    by (auto simp: AddIgnoreDependency_Inr_iff map_keys_def)
  then show ?thesis by (rule config [where f = ?f]) (auto simp: map_keys_def)
next
  case (call_SetValidateImportStatements validate)
  let ?f = "\<lambda>cfg. cfg\<lparr>validateImportStatements := validate\<rparr>"
  from call_SetValidateImportStatements obtain a where "c = Ref a" and "a < length (configs h)"
      and "h' = h\<lparr>configs := (configs h)[a := ?f (configs h ! a)]\<rparr>"
    by (auto simp: SetValidateImportStatements_def assign_Inr_iff)
  then show ?thesis by (rule config [where f = ?f]) auto
next
  case (call_SetEnvironmentType envType)
  let ?f = "\<lambda>cfg. cfg\<lparr>environmentType := envType\<rparr>"
  from call_SetEnvironmentType obtain a where "c = Ref a" and "a < length (configs h)"
      and "h' = h\<lparr>configs := (configs h)[a := ?f (configs h ! a)]\<rparr>"
    by (auto simp: SetEnvironmentType_def assign_Inr_iff)
  then show ?thesis by (rule config [where f = ?f]) auto
next
  case (call_SetLibraryNamingConvention t)
  let ?f = "\<lambda>cfg. cfg\<lparr>libraryNamingConvention := t\<rparr>"
  from call_SetLibraryNamingConvention obtain a where "c = Ref a" and "a < length (configs h)"
      and "h' = h\<lparr>configs := (configs h)[a := ?f (configs h ! a)]\<rparr>"
    by (auto simp: SetLibraryNamingConvention_def assign_Inr_iff)
  then show ?thesis by (rule config [where f = ?f]) auto
next
  case (call_SetTestNamingConvention t)
  let ?f = "\<lambda>cfg. cfg\<lparr>testNamingConvention := t\<rparr>"
  from call_SetTestNamingConvention obtain a where "c = Ref a" and "a < length (configs h)"
      and "h' = h\<lparr>configs := (configs h)[a := ?f (configs h ! a)]\<rparr>"
    by (auto simp: SetTestNamingConvention_def assign_Inr_iff)
  then show ?thesis by (rule config [where f = ?f]) auto
qed


subsection \<open>Every operation keeps the heap well formed\<close>

lemma wf_heap_append:
  assumes "wf_heap h"
    and "configs h' = configs h @ [cfg]"
    and "length (lists h) \<le> length (lists h')"
    and "case parent cfg of Nil \<Rightarrow> True | Ref b \<Rightarrow> b < length (configs h)"
    and "case excludedPatterns cfg of Nil \<Rightarrow> False | Ref l \<Rightarrow> l < length (lists h')"
  shows "wf_heap h'"
  unfolding wf_heap_def
proof (rule ballI)
  fix a
  assume "a \<in> {..<length (configs h')}"
  with assms(2) consider "a < length (configs h)" | "a = length (configs h)"
    by (auto simp: less_Suc_eq)
  then show "(case parent (configs h' ! a) of Nil \<Rightarrow> True | Ref b \<Rightarrow> b < a) \<and>
             (case excludedPatterns (configs h' ! a) of
                Nil \<Rightarrow> False
              | Ref l \<Rightarrow> l < length (lists h'))"
  proof cases
    case 1
    with assms(1) have "(case parent (configs h ! a) of Nil \<Rightarrow> True | Ref b \<Rightarrow> b < a) \<and>
        (case excludedPatterns (configs h ! a) of
           Nil \<Rightarrow> False
         | Ref l \<Rightarrow> l < length (lists h))"
      by (simp add: wf_heap_def)
    with 1 assms(2,3) show ?thesis
      by (auto simp: nth_append split: ptr.splits)
  next
    case 2
    with assms(2,4,5) show ?thesis by (auto split: ptr.splits)
  qed
qed

lemma wf_heap_New:
  assumes "wf_heap h" and "New h r = (c, h')"
  shows "wf_heap h'"
proof -
  from assms(2) have c: "configs h' = configs h @
        [\<lparr>parent = Nil, generationEnabled = True, repoRoot = r,
          environmentType = EnvironmentOther, excludedPatterns = Ref (length (lists h)),
          ignoreDependencies = Some {}, validateImportStatements = True,
          libraryNamingConvention = packageNameNamingConventionSubstitution,
          testNamingConvention = packageNameNamingConventionSubstitution @ ''_test''\<rparr>]"
    and l: "lists h' = lists h @ [[]]"
    by (auto simp: New_def singlylinkedlist_New_def alloc_def)
  show ?thesis by (rule wf_heap_append [OF assms(1) c]) (simp_all add: l)
qed

lemma wf_heap_NewChild:
  assumes "wf_heap h" and "NewChild h c = Inr (c', h')"
  shows "wf_heap h'"
proof -
  from assms(2) obtain a where a: "a < length (configs h)"
    and h': "h' = h\<lparr>configs := configs h @
                 [(configs h ! a)\<lparr>parent := Ref a, ignoreDependencies := Some {}\<rparr>]\<rparr>"
    by (rule NewChild_Inr)
  from assms(1) a have
    "case excludedPatterns (configs h ! a) of Nil \<Rightarrow> False | Ref l \<Rightarrow> l < length (lists h)"
    by (simp add: wf_heap_def)
  moreover from h' have "configs h' = configs h @
                 [(configs h ! a)\<lparr>parent := Ref a, ignoreDependencies := Some {}\<rparr>]"
    and "lists h' = lists h"
    by simp_all
  ultimately show ?thesis using a
    by (intro wf_heap_append [OF assms(1) \<open>configs h' = _\<close>])
       (simp_all split: ptr.splits)
qed

lemma wf_heap_method_call:
  assumes "wf_heap h" and "method_call h c h'"
  shows "wf_heap h'"
  using assms(2)
proof (cases rule: method_call_cases)
  case (config a f)
  show ?thesis
    unfolding wf_heap_def
  proof (rule ballI)
    fix b
    assume "b \<in> {..<length (configs h')}"
    with config have b: "b < length (configs h)" by simp
    with assms(1) have *: "(case parent (configs h ! b) of Nil \<Rightarrow> True | Ref p \<Rightarrow> p < b) \<and>
        (case excludedPatterns (configs h ! b) of
           Nil \<Rightarrow> False
         | Ref l \<Rightarrow> l < length (lists h))"
      by (simp add: wf_heap_def)
    from config b have "parent (configs h' ! b) = parent (configs h ! b)"
      and "excludedPatterns (configs h' ! b) = excludedPatterns (configs h ! b)"
      and "lists h' = lists h"
      by (auto simp: nth_list_update)
    with * show "(case parent (configs h' ! b) of Nil \<Rightarrow> True | Ref p \<Rightarrow> p < b) \<and>
             (case excludedPatterns (configs h' ! b) of
                Nil \<Rightarrow> False
              | Ref l \<Rightarrow> l < length (lists h'))"
      by (simp split: ptr.splits)
  qed
next
  case (list a l v)
  with assms(1) show ?thesis
    by (simp add: wf_heap_def split: ptr.splits)
qed

lemma wf_heap_mutation:
  assumes "wf_heap h" and "mutation h h'"
  shows "wf_heap h'"
  using assms(2,1)
  by (cases rule: mutation.cases)
     (auto intro: wf_heap_New wf_heap_NewChild wf_heap_method_call)

lemma wf_heap_mutations:
  assumes "mutation\<^sup>*\<^sup>* h h'" and "wf_heap h"
  shows "wf_heap h'"
  using assms by (induction rule: rtranclp_induct) (auto intro: wf_heap_mutation)

lemma wf_empty_heap: "wf_heap empty_heap"
  by (simp add: wf_heap_def empty_heap_def)

text \<open>Every heap that the operations of the package build from the empty heap is well formed.\<close>

lemma wf_heap_reachable: "mutation\<^sup>*\<^sup>* empty_heap h \<Longrightarrow> wf_heap h"
  by (rule wf_heap_mutations [OF _ wf_empty_heap])

subsection \<open>No operation changes a parent pointer or removes an ignored name\<close>

lemma mutation_keeps:
  assumes "mutation h h'"
  shows "length (configs h) \<le> length (configs h') \<and>
         (\<forall>b < length (configs h).
            parent (configs h' ! b) = parent (configs h ! b) \<and>
            excludedPatterns (configs h' ! b) = excludedPatterns (configs h ! b) \<and>
            map_keys (ignoreDependencies (configs h ! b)) \<subseteq> map_keys (ignoreDependencies (configs h' ! b)))"
  using assms
proof (cases rule: mutation.cases)
  case (mutation_New r c)
  then show ?thesis
    by (auto simp: New_def singlylinkedlist_New_def alloc_def nth_append)
next
  case (mutation_NewChild c c')
  then show ?thesis
    by (elim NewChild_Inr) (auto simp: nth_append)
next
  case (mutation_call c)
  then show ?thesis
    by (elim method_call_cases) (auto simp: nth_list_update)
qed

lemma mutations_keep:
  assumes "mutation\<^sup>*\<^sup>* h h'"
  shows "length (configs h) \<le> length (configs h') \<and>
         (\<forall>b < length (configs h).
            parent (configs h' ! b) = parent (configs h ! b) \<and>
            excludedPatterns (configs h' ! b) = excludedPatterns (configs h ! b) \<and>
            map_keys (ignoreDependencies (configs h ! b)) \<subseteq> map_keys (ignoreDependencies (configs h' ! b)))"
  using assms
proof (induction rule: rtranclp_induct)
  case base
  then show ?case by simp
next
  case (step h1 h2)
  note k = mutation_keeps [OF step.hyps(2)]
  show ?case
  proof (intro conjI allI impI)
    from k step.IH show "length (configs h) \<le> length (configs h2)" by simp
  next
    fix b
    assume b: "b < length (configs h)"
    with step.IH have b1: "b < length (configs h1)" by simp
    from step.IH b have 1: "parent (configs h1 ! b) = parent (configs h ! b)"
        "excludedPatterns (configs h1 ! b) = excludedPatterns (configs h ! b)"
        "map_keys (ignoreDependencies (configs h ! b)) \<subseteq> map_keys (ignoreDependencies (configs h1 ! b))"
      by simp_all
    from k b1 have 2: "parent (configs h2 ! b) = parent (configs h1 ! b)"
        "excludedPatterns (configs h2 ! b) = excludedPatterns (configs h1 ! b)"
        "map_keys (ignoreDependencies (configs h1 ! b)) \<subseteq> map_keys (ignoreDependencies (configs h2 ! b))"
      by simp_all
    from 1 2 show "parent (configs h2 ! b) = parent (configs h ! b)" by simp
    from 1 2 show "excludedPatterns (configs h2 ! b) = excludedPatterns (configs h ! b)"
      by simp
    from 1 2 show "map_keys (ignoreDependencies (configs h ! b)) \<subseteq> map_keys (ignoreDependencies (configs h2 ! b))"
      by blast
  qed
qed

subsection \<open>No operation leaves a node with the nil map\<close>

lemma mutation_keeps_maps:
  assumes "mutation h h'"
    and "\<forall>a < length (configs h). ignoreDependencies (configs h ! a) \<noteq> None"
  shows "\<forall>a < length (configs h'). ignoreDependencies (configs h' ! a) \<noteq> None"
  using assms(1)
proof (cases rule: mutation.cases)
  case (mutation_New r c)
  with assms(2) show ?thesis
    by (auto simp: New_def singlylinkedlist_New_def alloc_def nth_append less_Suc_eq)
next
  case (mutation_NewChild c c')
  with assms(2) show ?thesis
    by (elim NewChild_Inr) (auto simp: nth_append less_Suc_eq)
next
  case (mutation_call c)
  from mutation_call(1) show ?thesis
  proof (cases rule: method_call_cases)
    case (config a f)
    show ?thesis
    proof (intro allI impI)
      fix b
      assume "b < length (configs h')"
      with config have b: "b < length (configs h)" by simp
      with assms(2) have "ignoreDependencies (configs h ! b) \<noteq> None" by simp
      with config b show "ignoreDependencies (configs h' ! b) \<noteq> None"
        by (cases "b = a") simp_all
    qed
  next
    case (list a l v)
    with assms(2) show ?thesis by simp
  qed
qed

text \<open>
  Every node of a heap that the operations of the package build from the empty heap has
  a map that a constructor made.
\<close>

lemma ignore_maps_reachable:
  assumes "mutation\<^sup>*\<^sup>* empty_heap h"
  shows "\<forall>a < length (configs h). ignoreDependencies (configs h ! a) \<noteq> None"
  using assms
proof (induction rule: rtranclp_induct)
  case base
  then show ?case by (simp add: empty_heap_def)
next
  case (step h1 h2)
  from mutation_keeps_maps [OF step.hyps(2) step.IH] show ?case .
qed

subsection \<open>Ancestors in a later heap\<close>

lemma ancestor_mono:
  assumes "length (configs h) \<le> length (configs h')"
    and "\<forall>b < length (configs h). parent (configs h' ! b) = parent (configs h ! b)"
    and "ancestor h a b"
  shows "ancestor h' a b"
  using assms(3)
proof (induction rule: ancestor.induct)
  case (ancestor_parent b a)
  with assms(1,2) show ?case by (intro ancestor.ancestor_parent) auto
next
  case (ancestor_step b m a)
  with assms(1,2) show ?case by (intro ancestor.ancestor_step [of b h' m]) auto
qed

lemma ancestor_back:
  assumes "wf_heap h"
    and "\<forall>b < length (configs h). parent (configs h' ! b) = parent (configs h ! b)"
    and "ancestor h' a b" and "b < length (configs h)"
  shows "ancestor h a b"
  using assms(3,4)
proof (induction rule: ancestor.induct)
  case (ancestor_parent b a)
  with assms(2) show ?case by (intro ancestor.ancestor_parent) auto
next
  case (ancestor_step b m a)
  with assms(2) have p: "parent (configs h ! b) = Ref m" by simp
  from wf_heap_parent [OF assms(1) ancestor_step.prems p] ancestor_step.prems
  have "m < length (configs h)" by simp
  with ancestor_step.IH have "ancestor h a m" .
  with ancestor_step.prems p show ?case by (rule ancestor.ancestor_step)
qed

lemma ignored_below_ancestor:
  assumes "wf_heap h" and "ancestor h a b"
    and "TrimSpace x \<in> map_keys (ignoreDependencies (configs h ! a))"
  shows "IgnoresDependency h (Ref b) x = Some (Inr True)"
proof -
  from ancestor_less [OF assms(1,2)] have "b < length (configs h)" by simp
  from IgnoresDependency_wf [OF assms(1) this, of x] assms(2,3) show ?thesis by auto
qed

lemma AddIgnoreDependency_Inr:
  assumes "AddIgnoreDependency h c x = Inr h1"
  obtains a where "c = Ref a" and "a < length (configs h)"
    and "TrimSpace x \<in> map_keys (ignoreDependencies (configs h1 ! a))"
proof -
  from assms obtain a s where "c = Ref a" and "a < length (configs h)"
    and "h1 = h\<lparr>configs := (configs h)
              [a := (configs h ! a)\<lparr>ignoreDependencies :=
                      Some (insert (TrimSpace x) s)\<rparr>]\<rparr>"
    by (auto simp: AddIgnoreDependency_Inr_iff)
  then show thesis by (intro that) (auto simp: map_keys_def)
qed

lemma ignore_reaches_descendants:
  assumes "wf_heap h" and "AddIgnoreDependency h (Ref A) x = Inr h1"
    and "mutation\<^sup>*\<^sup>* h1 h2" and "ancestor h2 A B"
  shows "IgnoresDependency h2 (Ref B) x = Some (Inr True)"
proof -
  from assms(2) have call: "method_call h (Ref A) h1" by (rule call_AddIgnoreDependency)
  with assms(1) have wf1: "wf_heap h1" by (rule wf_heap_method_call)
  with assms(3) have wf2: "wf_heap h2" by (rule wf_heap_mutations)
  from assms(2) have "A < length (configs h)"
    and "TrimSpace x \<in> map_keys (ignoreDependencies (configs h1 ! A))"
    by (auto elim: AddIgnoreDependency_Inr)
  moreover from mutation_keeps [OF mutation_call [OF call]]
  have "length (configs h) \<le> length (configs h1)" by simp
  ultimately have "A < length (configs h1)" by simp
  with mutations_keep [OF assms(3)] \<open>TrimSpace x \<in> map_keys (ignoreDependencies (configs h1 ! A))\<close>
  have "TrimSpace x \<in> map_keys (ignoreDependencies (configs h2 ! A))" by blast
  with wf2 assms(4) show ?thesis by (rule ignored_below_ancestor)
qed

lemma ignore_set_of_descendant:
  assumes "wf_heap h" and "ancestor h A B"
  shows "IgnoresDependency
           (h\<lparr>configs := (configs h)[B := (configs h ! B)\<lparr>ignoreDependencies := S\<rparr>]\<rparr>)
           (Ref A) d =
         IgnoresDependency h (Ref A) d"
proof -
  let ?h' = "h\<lparr>configs := (configs h)[B := (configs h ! B)\<lparr>ignoreDependencies := S\<rparr>]\<rparr>"
  from ancestor_less [OF assms] have AB: "A < B" and B: "B < length (configs h)" by simp_all
  have len: "length (configs ?h') = length (configs h)" by simp
  have par: "parent (configs ?h' ! b) = parent (configs h ! b)" for b
    by (cases "b = B") (simp_all add: B)
  have exc: "excludedPatterns (configs ?h' ! b) = excludedPatterns (configs h ! b)" for b
    by (cases "b = B") (simp_all add: B)
  have ign: "map_keys (ignoreDependencies (configs ?h' ! b)) = map_keys (ignoreDependencies (configs h ! b))"
    if "b \<noteq> B" for b
    using that by simp
  have wf': "wf_heap ?h'"
    using assms(1) unfolding wf_heap_def len par exc by (simp cong: ptr.case_cong)
  have le1: "length (configs ?h') \<le> length (configs h)"
    and le2: "length (configs h) \<le> length (configs ?h')"
    by simp_all
  have p1: "\<forall>b < length (configs ?h'). parent (configs h ! b) = parent (configs ?h' ! b)"
    by (intro allI impI) (rule par [symmetric])
  have p2: "\<forall>b < length (configs h). parent (configs ?h' ! b) = parent (configs h ! b)"
    by (intro allI impI) (rule par)
  have anc: "ancestor ?h' a A \<longleftrightarrow> ancestor h a A" for a
    using ancestor_mono [OF le1 p1] ancestor_mono [OF le2 p2] by blast
  have A: "A < length (configs h)" using AB B by simp
  have "(\<exists>a. ancestor ?h' a A \<and> x \<in> map_keys (ignoreDependencies (configs ?h' ! a))) \<longleftrightarrow>
        (\<exists>a. ancestor h a A \<and> x \<in> map_keys (ignoreDependencies (configs h ! a)))" for x
  proof -
    have "a \<noteq> B" if "ancestor h a A" for a
      using ancestor_less [OF assms(1) that] AB by simp
    then show ?thesis using anc ign by metis
  qed
  moreover have "map_keys (ignoreDependencies (configs ?h' ! A)) = map_keys (ignoreDependencies (configs h ! A))"
    using AB by (intro ign) simp
  ultimately show ?thesis
    using IgnoresDependency_wf [OF wf', of A d] IgnoresDependency_wf [OF assms(1) A, of d] len A
    by simp
qed


lemma ancestor_scenario_0_2: "ancestor scenario_heap 0 2"
  by (rule ancestor_step [OF _ _ ancestor_scenario_0_1]) (simp_all add: scenario_heap_def)

subsection \<open>Deriving a child\<close>

lemma singlylinkedlist_Values_cong:
  "lists h1 = lists h \<Longrightarrow> singlylinkedlist_Values h1 l = singlylinkedlist_Values h l"
  by (simp add: singlylinkedlist_Values_def split: ptr.splits)

lemma ExcludedPatterns_Values_cong:
  assumes "lists h1 = lists h" and "deref h1 c = deref h c"
  shows "ExcludedPatterns_Values h1 c = ExcludedPatterns_Values h c"
  unfolding ExcludedPatterns_Values_def ExcludedPatterns_def assms(2)
  by (simp add: singlylinkedlist_Values_cong [OF assms(1)] cong: sum.case_cong)

lemma NewChild_frame:
  assumes "wf_heap h" and "n < length (configs h)"
    and "h1 = h\<lparr>configs := configs h @
                 [(configs h ! n)\<lparr>parent := Ref n, ignoreDependencies := Some {}\<rparr>]\<rparr>"
  shows "lists h1 = lists h"
    and "take (length (configs h)) (configs h1) = configs h"
    and "deref h1 (Ref n) = deref h (Ref n)"
    and "IgnoresDependency h1 (Ref n) d = IgnoresDependency h (Ref n) d"
proof -
  from assms(3) show "lists h1 = lists h"
    and "take (length (configs h)) (configs h1) = configs h"
    by simp_all
  from assms(2,3) have n1: "n < length (configs h1)" by simp
  from assms(3) have same: "configs h1 ! b = configs h ! b" if "b < length (configs h)" for b
    using that by (simp add: nth_append)
  from assms(2) n1 same show "deref h1 (Ref n) = deref h (Ref n)"
    by (simp add: deref_Ref)
  from assms(2) have "NewChild h (Ref n) = Inr (Ref (length (configs h)), h1)"
    unfolding assms(3) by (rule NewChild_Ref)
  with assms(1) have wf1: "wf_heap h1" by (rule wf_heap_NewChild)
  have le: "length (configs h) \<le> length (configs h1)" using assms(3) by simp
  have par: "\<forall>b < length (configs h). parent (configs h1 ! b) = parent (configs h ! b)"
    using same by simp
  have anc: "ancestor h1 a n \<longleftrightarrow> ancestor h a n" for a
    using ancestor_mono [OF le par] ancestor_back [OF assms(1) par _ assms(2)] by blast
  have "(\<exists>a. ancestor h1 a n \<and> x \<in> map_keys (ignoreDependencies (configs h1 ! a))) \<longleftrightarrow>
        (\<exists>a. ancestor h a n \<and> x \<in> map_keys (ignoreDependencies (configs h ! a)))" for x
  proof -
    have "configs h1 ! a = configs h ! a" if "ancestor h a n" for a
      using ancestor_less [OF assms(1) that] assms(2) by (intro same) simp
    then show ?thesis using anc by metis
  qed
  then show "IgnoresDependency h1 (Ref n) d = IgnoresDependency h (Ref n) d"
    using IgnoresDependency_wf [OF wf1 n1, of d] IgnoresDependency_wf [OF assms(1,2), of d]
      same [OF assms(2)]
    by simp
qed

lemma wf_heap_excludedPatterns:
  assumes "wf_heap h" and "n < length (configs h)"
  obtains l where "excludedPatterns (configs h ! n) = Ref l" and "l < length (lists h)"
proof -
  from assms have "case excludedPatterns (configs h ! n) of
                     Nil \<Rightarrow> False | Ref l \<Rightarrow> l < length (lists h)"
    by (simp add: wf_heap_def)
  with that show thesis by (cases "excludedPatterns (configs h ! n)") simp_all
qed

lemma method_call_other:
  assumes "method_call h (Ref a) h'" and "b \<noteq> a"
  shows "configs h' ! b = configs h ! b"
  using assms(1)
proof (cases rule: method_call_cases)
  case (config a' f)
  with assms(2) show ?thesis by simp
next
  case (list a' l v)
  then show ?thesis by simp
qed

lemma AddExcludedPattern_shared:
  assumes "a < length (configs h)" and "b < length (configs h)"
    and "excludedPatterns (configs h ! a) = Ref l"
    and "excludedPatterns (configs h ! b) = Ref l"
    and "l < length (lists h)"
  shows "\<exists>h2. AddExcludedPattern h (Ref a) g = Inr h2 \<and>
              ExcludedPatterns h2 (Ref a) = Inr (Ref l) \<and>
              ExcludedPatterns h2 (Ref b) = Inr (Ref l) \<and>
              ExcludedPatterns_Values h2 (Ref a) = Inr (lists h ! l @ [g]) \<and>
              ExcludedPatterns_Values h2 (Ref b) = Inr (lists h ! l @ [g])"
  using assms
  by (intro exI [of _ "h\<lparr>lists := (lists h)[l := lists h ! l @ [g]]\<rparr>"])
     (simp add: AddExcludedPattern_def singlylinkedlist_Add_def deref_Ref
        ExcludedPatterns_def ExcludedPatterns_Values_def singlylinkedlist_Values_def)

subsection \<open>Replacing every instance\<close>

lemma Index_None_iff: "Index s tok = None \<longleftrightarrow> \<not> sublist tok s"
  by (induction s) (auto simp: sublist_Cons_right)

lemma Index_Some:
  assumes "Index s tok = Some j"
  shows "s = take j s @ tok @ drop (j + length tok) s \<and>
         (tok \<noteq> [] \<longrightarrow> \<not> sublist tok (take j s @ butlast tok))"
  using assms
proof (induction s arbitrary: j)
  case Nil
  then show ?case by (simp split: if_splits)
next
  case (Cons c cs)
  show ?case
  proof (cases "prefix tok (c # cs)")
    case True
    with Cons.prems have "j = 0" by simp
    moreover from True obtain r where "c # cs = tok @ r" by (auto elim: prefixE)
    moreover have "\<not> sublist tok (butlast tok)" if "tok \<noteq> []"
      using that sublist_length_le [of tok "butlast tok"] by (cases tok) auto
    ultimately show ?thesis by auto
  next
    case False
    with Cons.prems obtain i where i: "Index cs tok = Some i" and j: "j = Suc i"
      by auto
    from Cons.IH [OF i] have eq: "cs = take i cs @ tok @ drop (i + length tok) cs"
      and first: "tok \<noteq> [] \<longrightarrow> \<not> sublist tok (take i cs @ butlast tok)"
      by simp_all
    have "\<not> sublist tok (c # take i cs @ butlast tok)" if tok: "tok \<noteq> []"
    proof
      assume "sublist tok (c # take i cs @ butlast tok)"
      with first tok have p: "prefix tok (c # take i cs @ butlast tok)"
        by (simp add: sublist_Cons_right)
      have "prefix (c # take i cs @ butlast tok) (c # cs)"
        by (subst (2) eq) (auto simp: prefix_def intro: exI [of _ "last tok # drop (i + length tok) cs"]
              simp: tok append_butlast_last_id [symmetric] simp del: append_butlast_last_id)
      with p have "prefix tok (c # cs)" by (rule prefix_order.trans)
      with False show False ..
    qed
    with eq j show ?thesis by auto
  qed
qed


lemma Index_le: "Index s tok = Some j \<Longrightarrow> j + length tok \<le> length s"
proof (induction s arbitrary: j)
  case Nil
  then show ?case by (simp split: if_splits)
next
  case (Cons c cs)
  then show ?case by (auto split: if_splits dest: prefix_length_le)
qed

lemma Index_first:
  assumes "\<not> sublist tok (p @ butlast tok)"
  shows "Index (p @ tok @ rest) tok = Some (length p)"
  using assms
proof (induction p)
  case Nil
  have "prefix tok (tok @ rest)" by simp
  then show ?case by (cases "tok @ rest") simp_all
next
  case (Cons c p)
  from Cons.prems have tok: "tok \<noteq> []" by auto
  from Cons.prems have "\<not> prefix tok (c # p @ butlast tok)"
    and rest: "\<not> sublist tok (p @ butlast tok)"
    by (auto simp: sublist_Cons_right)
  moreover have "prefix (c # p @ butlast tok) (c # p @ tok @ rest)"
    using tok by (auto simp: prefix_def intro: exI [of _ "last tok # rest"]
        simp: append_butlast_last_id [symmetric] simp del: append_butlast_last_id)
  moreover have "length tok \<le> length (c # p @ butlast tok)"
    using tok by (cases tok) auto
  ultimately have "\<not> prefix tok (c # p @ tok @ rest)"
    using prefix_length_prefix by blast
  with Cons.IH [OF rest] show ?case by simp
qed

lemma ReplaceAll_none: "\<not> sublist tok s \<Longrightarrow> ReplaceAll s tok new = s"
  by (subst ReplaceAll.simps) (simp add: Index_None_iff [symmetric])

lemma ReplaceAll_first:
  assumes "\<not> sublist tok (p @ butlast tok)"
  shows "ReplaceAll (p @ tok @ rest) tok new = p @ new @ ReplaceAll rest tok new"
proof -
  from assms have "tok \<noteq> []" by auto
  with Index_first [OF assms, of rest] show ?thesis
    by (subst ReplaceAll.simps) simp
qed

lemma ReplaceAll_join:
  assumes "token_segments tok ps"
  shows "ReplaceAll (join_segments tok ps) tok new = join_segments new ps"
  using assms
proof (induction tok ps rule: join_segments.induct)
  case (1 sep)
  then show ?case by (simp add: token_segments_def)
next
  case (2 sep p)
  then show ?case by (simp add: token_segments_def ReplaceAll_none)
next
  case (3 sep p q qs)
  from "3.prems" have first: "\<not> sublist sep (p @ butlast sep)"
    and rest: "token_segments sep (q # qs)"
    by (auto simp: token_segments_def)
  from "3.IH" [OF rest] ReplaceAll_first [OF first, of "join_segments sep (q # qs)" new]
  show ?case by simp
qed

lemma token_segments_exist:
  assumes "tok \<noteq> []"
  shows "\<exists>ps. token_segments tok ps \<and> s = join_segments tok ps"
proof (induction s rule: length_induct)
  case (1 s)
  show ?case
  proof (cases "Index s tok")
    case None
    then have "token_segments tok [s]" "s = join_segments tok [s]"
      by (simp_all add: token_segments_def Index_None_iff)
    then show ?thesis by blast
  next
    case (Some j)
    let ?p = "take j s" and ?r = "drop (j + length tok) s"
    from Index_Some [OF Some] assms have eq: "s = ?p @ tok @ ?r"
      and first: "\<not> sublist tok (?p @ butlast tok)"
      by simp_all
    from Index_le [OF Some] assms have "length ?r < length s"
      by (cases tok) simp_all
    with 1 obtain qs where qs: "token_segments tok qs" "?r = join_segments tok qs" by blast
    then obtain q qs' where q: "qs = q # qs'" by (cases qs) (auto simp: token_segments_def)
    with qs first have "token_segments tok (?p # qs)"
      by (auto simp: token_segments_def)
    moreover from eq qs q have "s = join_segments tok (?p # qs)" by simp
    ultimately show ?thesis by blast
  qed
qed


lemma render_segments:
  assumes "token_segments packageNameNamingConventionSubstitution ps"
    and "t = join_segments packageNameNamingConventionSubstitution ps"
  shows "ReplaceAll t packageNameNamingConventionSubstitution name = join_segments name ps"
  unfolding assms(2) using assms(1) by (rule ReplaceAll_join)

lemma render_segments_exist:
  "\<exists>ps. token_segments packageNameNamingConventionSubstitution ps \<and>
        t = join_segments packageNameNamingConventionSubstitution ps \<and>
        ReplaceAll t packageNameNamingConventionSubstitution name = join_segments name ps"
proof -
  have "packageNameNamingConventionSubstitution \<noteq> []"
    by (simp add: packageNameNamingConventionSubstitution_def)
  from token_segments_exist [OF this, of t] render_segments show ?thesis by blast
qed

lemma token_literal: "''$package_name$'' = packageNameNamingConventionSubstitution"
  by (simp add: packageNameNamingConventionSubstitution_def)

lemma render_examples:
  "ReplaceAll ''$package_name$_lib'' packageNameNamingConventionSubstitution ''foo'' = ''foo_lib''"
  "ReplaceAll (packageNameNamingConventionSubstitution @ ''_test'')
     packageNameNamingConventionSubstitution ''bar'' = ''bar_test''"
  by code_simp+

subsection \<open>The directory of a package\<close>

lemma Dir_no_separator:
  assumes "Separator \<notin> set pkg"
  shows "Dir pkg = ''.''"
proof -
  from assms have "dropWhile (\<lambda>c. \<not> IsPathSeparator c) (rev pkg) = []"
    by (auto simp: IsPathSeparator_def)
  then show ?thesis by (simp add: Dir_def Clean_def)
qed

lemma Dir_examples:
  "Dir '''' = ''.''" "Dir ''a'' = ''.''" "Dir ''a/b'' = ''a''" "Dir ''a/b/c'' = ''a/b''"
  by code_simp+

subsection \<open>Ignored dependencies\<close>

lemma AddIgnoreDependency_TrimSpace:
  "AddIgnoreDependency h c s = AddIgnoreDependency h c (TrimSpace s)"
  by (simp add: AddIgnoreDependency_def TrimSpace_idem cong: sum.case_cong)

lemma IgnoresDependency_TrimSpace:
  "IgnoresDependency h c s = IgnoresDependency h c (TrimSpace s)"
  by (simp add: IgnoresDependency_def TrimSpace_idem)

lemma AddIgnoreDependency_Ref:
  assumes "a < length (configs h)" and "ignoreDependencies (configs h ! a) = Some ks"
  shows "AddIgnoreDependency h (Ref a) s =
       Inr (h\<lparr>configs := (configs h)
              [a := (configs h ! a)\<lparr>ignoreDependencies :=
                      Some (insert (TrimSpace s) ks)\<rparr>]\<rparr>)"
  using assms by (simp add: AddIgnoreDependency_Inr_iff)

lemma IgnoresDependency_local:
  assumes "a < length (configs h)" and "TrimSpace d \<in> map_keys (ignoreDependencies (configs h ! a))"
  shows "IgnoresDependency h (Ref a) d = Some (Inr True)"
  using assms by (simp add: IgnoresDependency_def deref_Ref)

lemma AddIgnoreDependency_twice:
  assumes "TrimSpace s = TrimSpace t" and "AddIgnoreDependency h c s = Inr h1"
  shows "AddIgnoreDependency h1 c t = Inr h1"
proof -
  from assms(2) obtain a ks where c: "c = Ref a" and a: "a < length (configs h)"
    and h1: "h1 = h\<lparr>configs := (configs h)
              [a := (configs h ! a)\<lparr>ignoreDependencies :=
                      Some (insert (TrimSpace s) ks)\<rparr>]\<rparr>"
    by (auto simp: AddIgnoreDependency_Inr_iff)
  from a h1 have "a < length (configs h1)"
    and "ignoreDependencies (configs h1 ! a) = Some (insert (TrimSpace s) ks)"
    by simp_all
  from AddIgnoreDependency_Ref [OF this, of t] show ?thesis
    unfolding c by (simp add: assms(1) [symmetric] h1 a)
qed

section \<open>Properties of the configuration tree\<close>

text \<open>
  C1. On a heap built by the package, \<^verbatim>\<open>NewChild\<close> on a node \<open>n\<close> returns a child \<open>c\<close>
  whose exclusion list is the list object of \<open>n\<close>. A pattern added through \<open>c\<close> is the
  last value of the list read through \<open>n\<close>, and a pattern added through \<open>n\<close> is the last
  value of the list read through \<open>c\<close>.
\<close>

theorem excluded_patterns_shared:
  assumes "wf_heap h" and "n < length (configs h)"
  shows "\<exists>c h1 l vs. NewChild h (Ref n) = Inr (c, h1) \<and>
           ExcludedPatterns h1 (Ref n) = Inr l \<and> ExcludedPatterns h1 c = Inr l \<and>
           ExcludedPatterns_Values h1 (Ref n) = Inr vs \<and>
           ExcludedPatterns_Values h1 c = Inr vs \<and>
           (\<forall>g. \<exists>h2. AddExcludedPattern h1 c g = Inr h2 \<and>
                  ExcludedPatterns h2 (Ref n) = Inr l \<and> ExcludedPatterns h2 c = Inr l \<and>
                  ExcludedPatterns_Values h2 (Ref n) = Inr (vs @ [g]) \<and>
                  ExcludedPatterns_Values h2 c = Inr (vs @ [g])) \<and>
           (\<forall>g. \<exists>h2. AddExcludedPattern h1 (Ref n) g = Inr h2 \<and>
                  ExcludedPatterns h2 (Ref n) = Inr l \<and> ExcludedPatterns h2 c = Inr l \<and>
                  ExcludedPatterns_Values h2 (Ref n) = Inr (vs @ [g]) \<and>
                  ExcludedPatterns_Values h2 c = Inr (vs @ [g]))"
proof -
  let ?c = "length (configs h)"
  let ?h1 = "h\<lparr>configs := configs h @
                 [(configs h ! n)\<lparr>parent := Ref n, ignoreDependencies := Some {}\<rparr>]\<rparr>"
  from assms obtain l where l: "excludedPatterns (configs h ! n) = Ref l" "l < length (lists h)"
    by (rule wf_heap_excludedPatterns)
  have child: "NewChild h (Ref n) = Inr (Ref ?c, ?h1)"
    using assms(2) by (rule NewChild_Ref)
  have n1: "n < length (configs ?h1)" and c1: "?c < length (configs ?h1)"
    using assms(2) by simp_all
  have en: "excludedPatterns (configs ?h1 ! n) = Ref l"
    and ec: "excludedPatterns (configs ?h1 ! ?c) = Ref l"
    and l1: "l < length (lists ?h1)" and ls: "lists ?h1 ! l = lists h ! l"
    using assms(2) l by (simp_all add: nth_append)
  have "ExcludedPatterns ?h1 (Ref n) = Inr (Ref l)" "ExcludedPatterns ?h1 (Ref ?c) = Inr (Ref l)"
    "ExcludedPatterns_Values ?h1 (Ref n) = Inr (lists h ! l)"
    "ExcludedPatterns_Values ?h1 (Ref ?c) = Inr (lists h ! l)"
    using assms(2) l
    by (simp_all add: ExcludedPatterns_def ExcludedPatterns_Values_def deref_Ref
          singlylinkedlist_Values_def nth_append)
  moreover note child
  moreover have "\<exists>h2. AddExcludedPattern ?h1 (Ref ?c) g = Inr h2 \<and>
                  ExcludedPatterns h2 (Ref n) = Inr (Ref l) \<and>
                  ExcludedPatterns h2 (Ref ?c) = Inr (Ref l) \<and>
                  ExcludedPatterns_Values h2 (Ref n) = Inr (lists h ! l @ [g]) \<and>
                  ExcludedPatterns_Values h2 (Ref ?c) = Inr (lists h ! l @ [g])" for g
    using AddExcludedPattern_shared [OF c1 n1 ec en l1, of g] unfolding ls by blast
  moreover have "\<exists>h2. AddExcludedPattern ?h1 (Ref n) g = Inr h2 \<and>
                  ExcludedPatterns h2 (Ref n) = Inr (Ref l) \<and>
                  ExcludedPatterns h2 (Ref ?c) = Inr (Ref l) \<and>
                  ExcludedPatterns_Values h2 (Ref n) = Inr (lists h ! l @ [g]) \<and>
                  ExcludedPatterns_Values h2 (Ref ?c) = Inr (lists h ! l @ [g])" for g
    using AddExcludedPattern_shared [OF n1 c1 en ec l1, of g] unfolding ls by blast
  ultimately show ?thesis by blast
qed

theorem excluded_patterns_shared_witness:
  "wf_heap scenario_heap \<and> 1 < length (configs scenario_heap) \<and>
   (\<exists>c h1 h2. NewChild scenario_heap (Ref 1) = Inr (c, h1) \<and>
       AddExcludedPattern h1 c ''dist'' = Inr h2 \<and>
       ExcludedPatterns_Values h1 (Ref 1) = Inr [] \<and>
       ExcludedPatterns_Values h2 (Ref 1) = Inr [''dist''])"
proof -
  have len: "1 < length (configs scenario_heap)" by (simp add: length_scenario_heap)
  from excluded_patterns_shared [OF wf_scenario_heap len] obtain c h1 vs
    where child: "NewChild scenario_heap (Ref 1) = Inr (c, h1)"
      and vs: "ExcludedPatterns_Values h1 (Ref 1) = Inr vs"
      and add: "\<forall>g. \<exists>h2. AddExcludedPattern h1 c g = Inr h2 \<and>
                  ExcludedPatterns_Values h2 (Ref 1) = Inr (vs @ [g])"
    by blast
  from child NewChild_Ref [OF len]
  have "h1 = scenario_heap\<lparr>configs := configs scenario_heap @
          [(configs scenario_heap ! 1)\<lparr>parent := Ref 1, ignoreDependencies := Some {}\<rparr>]\<rparr>"
    by simp
  then have "ExcludedPatterns_Values h1 (Ref 1) = Inr []"
    by (simp add: ExcludedPatterns_Values_def ExcludedPatterns_def deref_def
        singlylinkedlist_Values_def scenario_heap_def)
  with vs have "vs = []" by simp
  with add obtain h2 where "AddExcludedPattern h1 c ''dist'' = Inr h2"
    and "ExcludedPatterns_Values h2 (Ref 1) = Inr [''dist'']"
    by (metis append_Nil)
  with child vs \<open>vs = []\<close> wf_scenario_heap len show ?thesis by blast
qed

text \<open>
  C2. On a heap built by the package: after \<^verbatim>\<open>AddIgnoreDependency\<close> of \<open>x\<close> on a node
  \<open>A\<close>, and after any further operations of the package (on any node, whatever they
  are), every node \<open>B\<close> that then has \<open>A\<close> among its ancestors ignores \<open>x\<close>. In the
  other direction, whatever the ignore set of a descendant \<open>B\<close> of \<open>A\<close> holds, the
  answer of \<^verbatim>\<open>IgnoresDependency\<close> on \<open>A\<close> is the same.
\<close>

theorem ignore_propagation:
  assumes "wf_heap h"
  shows "(AddIgnoreDependency h (Ref A) x = Inr h1 \<longrightarrow> mutation\<^sup>*\<^sup>* h1 h2 \<longrightarrow>
            ancestor h2 A B \<longrightarrow>
            IgnoresDependency h2 (Ref B) x = Some (Inr True)) \<and>
         (ancestor h A B \<longrightarrow>
            IgnoresDependency
              (h\<lparr>configs := (configs h)[B := (configs h ! B)\<lparr>ignoreDependencies := S\<rparr>]\<rparr>)
              (Ref A) d =
            IgnoresDependency h (Ref A) d)"
  using ignore_reaches_descendants [OF assms] ignore_set_of_descendant [OF assms]
  by blast

theorem ignore_propagation_witness:
  "wf_heap scenario_heap \<and>
   (\<exists>h1 h2. AddIgnoreDependency scenario_heap (Ref 0) ''lodash'' = Inr h1 \<and>
            NewChild h1 (Ref 2) = Inr (Ref 3, h2) \<and>
            mutation\<^sup>*\<^sup>* h1 h2 \<and> ancestor h2 0 3 \<and>
            IgnoresDependency h2 (Ref 3) ''lodash'' = Some (Inr True)) \<and>
   ancestor scenario_heap 1 2 \<and>
   IgnoresDependency
     (scenario_heap\<lparr>configs := (configs scenario_heap)
        [2 := (configs scenario_heap ! 2)\<lparr>ignoreDependencies := Some {''lodash''}\<rparr>]\<rparr>)
     (Ref 1) ''lodash'' = Some (Inr False)"
proof -
  have "0 < length (configs scenario_heap)"
    and "ignoreDependencies (configs scenario_heap ! 0) = Some {}"
    by (simp_all add: scenario_heap_def)
  from AddIgnoreDependency_Ref [OF this, of "''lodash''"]
  obtain h1 where add: "AddIgnoreDependency scenario_heap (Ref 0) ''lodash'' = Inr h1"
    by blast
  then have m1: "mutation scenario_heap h1"
    by (intro mutation_call call_AddIgnoreDependency)
  then have len1: "3 \<le> length (configs h1)"
    using mutation_keeps [of scenario_heap h1] by (simp add: length_scenario_heap)
  from add have "length (configs h1) = 3"
    by (auto simp: AddIgnoreDependency_Inr_iff length_scenario_heap)
  then obtain h2 where child: "NewChild h1 (Ref 2) = Inr (Ref 3, h2)"
    and h2: "h2 = h1\<lparr>configs := configs h1 @
                 [(configs h1 ! 2)\<lparr>parent := Ref 2, ignoreDependencies := Some {}\<rparr>]\<rparr>"
    using NewChild_Ref [of 2 h1] by simp
  then have m2: "mutation h1 h2" by (intro mutation_NewChild)
  then have steps: "mutation\<^sup>*\<^sup>* h1 h2" by (rule r_into_rtranclp)
  from m1 m2 have "mutation\<^sup>*\<^sup>* scenario_heap h2" by simp
  from mutations_keep [OF this]
  have "ancestor h2 0 2"
    by (intro ancestor_mono [OF _ _ ancestor_scenario_0_2]) simp_all
  moreover from h2 \<open>length (configs h1) = 3\<close>
  have "3 < length (configs h2)" and "parent (configs h2 ! 3) = Ref 2"
    by (simp_all add: nth_append)
  ultimately have anc: "ancestor h2 0 3" by (intro ancestor_step [of 3 h2 2 0])
  have false: "IgnoresDependency scenario_heap (Ref 1) ''lodash'' = Some (Inr False)"
  proof -
    have "TrimSpace ''lodash'' = ''lodash''" by code_simp
    moreover have "ancestor scenario_heap a 1 \<longleftrightarrow> a = 0" for a
      using ancestor_Ref [of 1 scenario_heap 0 a] ancestor_Nil [of scenario_heap 0 a]
      by (simp add: scenario_heap_def)
    ultimately show ?thesis
      using IgnoresDependency_wf [OF wf_scenario_heap, of 1 "''lodash''"]
      by (simp add: scenario_heap_def)
  qed
  from ignore_propagation [OF wf_scenario_heap, where A = 0 and x = "''lodash''"
        and ?h1.0 = h1 and ?h2.0 = h2 and B = 3]
    ignore_propagation [OF wf_scenario_heap, where A = 1 and B = 2
        and S = "Some {''lodash''}" and d = "''lodash''"]
    add child steps anc ancestor_scenario_1_2 false wf_scenario_heap
  show ?thesis by auto
qed

text \<open>
  C3. For a node \<open>n\<close> of a heap built by the package and a name \<open>d\<close>,
  \<^verbatim>\<open>IgnoresDependency\<close> returns, and it returns true if and only if the trimmed name is
  in the ignore set of \<open>n\<close> itself or in the ignore set of some ancestor of \<open>n\<close>.
\<close>

theorem IgnoresDependency_iff_chain:
  assumes "wf_heap h" and "n < length (configs h)"
  shows "IgnoresDependency h (Ref n) d =
           Some (Inr (TrimSpace d \<in> map_keys (ignoreDependencies (configs h ! n)) \<or>
                  (\<exists>a. ancestor h a n \<and> TrimSpace d \<in> map_keys (ignoreDependencies (configs h ! a)))))"
  using assms by (rule IgnoresDependency_wf)

theorem IgnoresDependency_iff_chain_witness:
  "wf_heap scenario_heap \<and> 2 < length (configs scenario_heap) \<and>
   IgnoresDependency scenario_heap (Ref 2) ''left-pad'' = Some (Inr True) \<and>
   IgnoresDependency scenario_heap (Ref 0) ''left-pad'' = Some (Inr False)"
proof -
  have len2: "2 < length (configs scenario_heap)" and len0: "0 < length (configs scenario_heap)"
    by (simp_all add: length_scenario_heap)
  have in1: "''left-pad'' \<in> map_keys (ignoreDependencies (configs scenario_heap ! 1))"
    by (simp add: scenario_heap_def)
  have "\<not> ancestor scenario_heap a 0" for a
    by (rule ancestor_Nil) (simp add: scenario_heap_def)
  moreover have "''left-pad'' \<notin> map_keys (ignoreDependencies (configs scenario_heap ! 0))"
    by (simp add: scenario_heap_def)
  ultimately show ?thesis
    using IgnoresDependency_iff_chain [OF wf_scenario_heap len2, of "''left-pad''"]
      IgnoresDependency_iff_chain [OF wf_scenario_heap len0, of "''left-pad''"]
      ancestor_scenario_1_2 in1 wf_scenario_heap len2
    by (auto simp: TrimSpace_left_pad)
qed

text \<open>
  C4. \<^verbatim>\<open>NewChild\<close> on a node \<open>n\<close> returns a new node \<open>c\<close> whose parent is \<open>n\<close>, whose
  ignore set is empty and whose scalar settings are those of \<open>n\<close> at that moment. They
  are copies: no writing method called on \<open>n\<close> afterwards changes a field of \<open>c\<close>, and
  none called on \<open>c\<close> changes a field of \<open>n\<close>.
\<close>

theorem NewChild_copies_settings:
  assumes "n < length (configs h)"
  shows "\<exists>c h1. NewChild h (Ref n) = Inr (Ref c, h1) \<and>
           c = length (configs h) \<and> c < length (configs h1) \<and>
           Parent h1 (Ref c) = Inr (Ref n) \<and>
           ignoreDependencies (configs h1 ! c) = Some {} \<and>
           scalar_settings (configs h1 ! c) = scalar_settings (configs h ! n) \<and>
           GenerationEnabled h1 (Ref c) = GenerationEnabled h (Ref n) \<and>
           ValidateImportStatements h1 (Ref c) = ValidateImportStatements h (Ref n) \<and>
           (\<forall>h2. method_call h1 (Ref n) h2 \<longrightarrow> configs h2 ! c = configs h1 ! c) \<and>
           (\<forall>h2. method_call h1 (Ref c) h2 \<longrightarrow> configs h2 ! n = configs h1 ! n)"
proof -
  let ?c = "length (configs h)"
  let ?h1 = "h\<lparr>configs := configs h @
                 [(configs h ! n)\<lparr>parent := Ref n, ignoreDependencies := Some {}\<rparr>]\<rparr>"
  from assms have ne: "?c \<noteq> n" "n \<noteq> ?c" by simp_all
  have "\<forall>h2. method_call ?h1 (Ref n) h2 \<longrightarrow> configs h2 ! ?c = configs ?h1 ! ?c"
    using method_call_other [OF _ ne(1)] by blast
  moreover have "\<forall>h2. method_call ?h1 (Ref ?c) h2 \<longrightarrow> configs h2 ! n = configs ?h1 ! n"
    using method_call_other [OF _ ne(2)] by blast
  moreover have "NewChild h (Ref n) = Inr (Ref ?c, ?h1)"
    using assms by (rule NewChild_Ref)
  moreover have "Parent ?h1 (Ref ?c) = Inr (Ref n)"
      "ignoreDependencies (configs ?h1 ! ?c) = Some {}"
      "scalar_settings (configs ?h1 ! ?c) = scalar_settings (configs h ! n)"
      "GenerationEnabled ?h1 (Ref ?c) = GenerationEnabled h (Ref n)"
      "ValidateImportStatements ?h1 (Ref ?c) = ValidateImportStatements h (Ref n)"
      "?c < length (configs ?h1)"
    using assms
    by (simp_all add: Parent_def deref_Ref scalar_settings_def GenerationEnabled_def
          ValidateImportStatements_def)
  ultimately show ?thesis by blast
qed

theorem NewChild_copies_settings_witness:
  "0 < length (configs scenario_heap) \<and>
   (\<exists>c h1 h2. NewChild scenario_heap (Ref 0) = Inr (Ref c, h1) \<and>
       SetGenerationEnabled h1 (Ref 0) False = Inr h2 \<and>
       method_call h1 (Ref 0) h2 \<and>
       GenerationEnabled h2 (Ref 0) = Inr False \<and>
       GenerationEnabled h2 (Ref c) = Inr True)"
proof -
  have len: "0 < length (configs scenario_heap)" by (simp add: length_scenario_heap)
  from NewChild_copies_settings [OF len] obtain c h1
    where child: "NewChild scenario_heap (Ref 0) = Inr (Ref c, h1)"
      and c: "c = length (configs scenario_heap)" "c < length (configs h1)"
      and gen: "GenerationEnabled h1 (Ref c) = GenerationEnabled scenario_heap (Ref 0)"
      and kept: "\<forall>h2. method_call h1 (Ref 0) h2 \<longrightarrow> configs h2 ! c = configs h1 ! c"
    by blast
  from c(2) have 0: "0 < length (configs h1)" by (cases "configs h1") simp_all
  let ?h2 = "h1\<lparr>configs := (configs h1)[0 := (configs h1 ! 0)\<lparr>generationEnabled := False\<rparr>]\<rparr>"
  from 0 have set: "SetGenerationEnabled h1 (Ref 0) False = Inr ?h2"
    by (simp add: SetGenerationEnabled_def assign_def)
  then have call: "method_call h1 (Ref 0) ?h2" by (rule call_SetGenerationEnabled)
  with kept have "configs ?h2 ! c = configs h1 ! c" by blast
  with c gen have "GenerationEnabled ?h2 (Ref c) = Inr True"
    by (simp add: GenerationEnabled_def deref_Ref scenario_heap_def)
  moreover from 0 have "GenerationEnabled ?h2 (Ref 0) = Inr False"
    by (simp add: GenerationEnabled_def deref_Ref)
  ultimately show ?thesis using len child set call by blast
qed

text \<open>
  C5. \<^verbatim>\<open>ParentForPackage\<close> takes the directory of the package path, replaces \<^verbatim>\<open>.\<close>
  by the empty string and returns what the map holds under that key: \<^verbatim>\<open>nil\<close> when
  the map holds nothing there. It works on the map alone. The directory of a path
  without a separator is \<^verbatim>\<open>.\<close>, so that a top-level package is looked up under the
  empty key, and so is the root package path, the empty string itself: what is
  returned for it is the node registered under the empty key, and \<^verbatim>\<open>nil\<close> only when
  none is registered there.
\<close>

theorem ParentForPackage_lookup:
  "ParentForPackage c pkg = index_Configs c (if Dir pkg = ''.'' then '''' else Dir pkg) \<and>
   (c (if Dir pkg = ''.'' then '''' else Dir pkg) = None \<longrightarrow> ParentForPackage c pkg = Nil) \<and>
   (\<forall>p. c (if Dir pkg = ''.'' then '''' else Dir pkg) = Some p \<longrightarrow> ParentForPackage c pkg = p) \<and>
   (CHR ''/'' \<notin> set pkg \<longrightarrow> ParentForPackage c pkg = index_Configs c '''') \<and>
   ParentForPackage c '''' = index_Configs c '''' \<and>
   ParentForPackage c ''a/b'' = index_Configs c ''a''"
  using Dir_no_separator [of pkg]
  by (auto simp: ParentForPackage_def index_Configs_def Dir_examples Separator_def)

theorem ParentForPackage_lookup_witness:
  "Map.empty (if Dir ''a/b'' = ''.'' then '''' else Dir ''a/b'') = (None :: ptr option) \<and>
   ParentForPackage Map.empty ''a/b'' = Nil \<and>
   [''a'' \<mapsto> Ref 1] (if Dir ''a/b'' = ''.'' then '''' else Dir ''a/b'') = Some (Ref 1) \<and>
   ParentForPackage [''a'' \<mapsto> Ref 1] ''a/b'' = Ref 1 \<and>
   CHR ''/'' \<notin> set ''a'' \<and>
   ParentForPackage ['''' \<mapsto> Ref 0] ''a'' = Ref 0"
  using ParentForPackage_lookup [of Map.empty "''a/b''"]
    ParentForPackage_lookup [of "[''a'' \<mapsto> Ref 1]" "''a/b''"]
    ParentForPackage_lookup [of "['''' \<mapsto> Ref 0]" "''a''"]
  by (simp add: Dir_examples index_Configs_def)

theorem ParentForPackage_root_counterexample:
  "ParentForPackage ['''' \<mapsto> Ref 0] '''' \<noteq> Nil"
  by (simp add: ParentForPackage_def index_Configs_def Dir_examples)

text \<open>
  C6. For every node, template and package name, the template is a sequence of segments
  joined by the token \<^verbatim>\<open>$package_name$\<close>, the joints being the instances of the token
  that a scan from the left meets, and \<^verbatim>\<open>RenderLibraryName\<close> and \<^verbatim>\<open>RenderTestName\<close>
  return the same segments joined by the package name. This holds for every such
  division of the template. A template without the token is returned as it is. With
  the library template \<^verbatim>\<open>$package_name$_lib\<close> the name \<^verbatim>\<open>foo\<close> renders to
  \<^verbatim>\<open>foo_lib\<close>, and on a node made by \<^verbatim>\<open>New\<close> the name \<^verbatim>\<open>bar\<close> renders to
  \<^verbatim>\<open>bar_test\<close>.
\<close>

theorem render_replaces_placeholder:
  assumes "n < length (configs h)"
  shows "(\<exists>ps. token_segments ''$package_name$'' ps \<and>
              libraryNamingConvention (configs h ! n) = join_segments ''$package_name$'' ps \<and>
              RenderLibraryName h (Ref n) name = Inr (join_segments name ps)) \<and>
         (\<exists>ps. token_segments ''$package_name$'' ps \<and>
              testNamingConvention (configs h ! n) = join_segments ''$package_name$'' ps \<and>
              RenderTestName h (Ref n) name = Inr (join_segments name ps)) \<and>
         (\<forall>ps. token_segments ''$package_name$'' ps \<and>
              libraryNamingConvention (configs h ! n) = join_segments ''$package_name$'' ps \<longrightarrow>
              RenderLibraryName h (Ref n) name = Inr (join_segments name ps)) \<and>
         (\<forall>ps. token_segments ''$package_name$'' ps \<and>
              testNamingConvention (configs h ! n) = join_segments ''$package_name$'' ps \<longrightarrow>
              RenderTestName h (Ref n) name = Inr (join_segments name ps)) \<and>
         (\<not> sublist ''$package_name$'' (libraryNamingConvention (configs h ! n)) \<longrightarrow>
            RenderLibraryName h (Ref n) name = Inr (libraryNamingConvention (configs h ! n))) \<and>
         (\<not> sublist ''$package_name$'' (testNamingConvention (configs h ! n)) \<longrightarrow>
            RenderTestName h (Ref n) name = Inr (testNamingConvention (configs h ! n))) \<and>
         (\<exists>h'. SetLibraryNamingConvention h (Ref n) ''$package_name$_lib'' = Inr h' \<and>
               RenderLibraryName h' (Ref n) ''foo'' = Inr ''foo_lib'') \<and>
         RenderTestName (snd (New h r)) (fst (New h r)) ''bar'' = Inr ''bar_test''"
proof -
  have lib: "RenderLibraryName h (Ref n) name =
      Inr (ReplaceAll (libraryNamingConvention (configs h ! n))
             packageNameNamingConventionSubstitution name)"
    and test: "RenderTestName h (Ref n) name =
      Inr (ReplaceAll (testNamingConvention (configs h ! n))
             packageNameNamingConventionSubstitution name)"
    using assms by (simp_all add: RenderLibraryName_def RenderTestName_def deref_Ref)
  have set: "\<exists>h'. SetLibraryNamingConvention h (Ref n) ''$package_name$_lib'' = Inr h' \<and>
               RenderLibraryName h' (Ref n) ''foo'' = Inr ''foo_lib''"
    using assms
    by (simp add: SetLibraryNamingConvention_def assign_def RenderLibraryName_def deref_Ref
          render_examples)
  have new: "RenderTestName (snd (New h r)) (fst (New h r)) ''bar'' = Inr ''bar_test''"
    by (simp add: New_def singlylinkedlist_New_def alloc_def RenderTestName_def deref_def
          render_examples)
  show ?thesis
    unfolding lib test token_literal
    using render_segments_exist render_segments ReplaceAll_none set new
    by (intro conjI) (simp_all del: ex_simps)
qed


theorem render_replaces_placeholder_witness:
  "0 < length (configs scenario_heap) \<and>
   token_segments ''$package_name$'' ['''', ''''] \<and>
   libraryNamingConvention (configs scenario_heap ! 0) =
     join_segments ''$package_name$'' ['''', ''''] \<and>
   RenderLibraryName scenario_heap (Ref 0) ''foo'' = Inr ''foo'' \<and>
   token_segments ''$package_name$'' ['''', ''_test''] \<and>
   testNamingConvention (configs scenario_heap ! 0) =
     join_segments ''$package_name$'' ['''', ''_test''] \<and>
   RenderTestName scenario_heap (Ref 0) ''bar'' = Inr ''bar_test'' \<and>
   0 < length (configs \<lparr>configs = [(configs scenario_heap ! 0)
          \<lparr>libraryNamingConvention := ''lib'', testNamingConvention := ''spec''\<rparr>],
        lists = [[]]\<rparr>) \<and>
   \<not> sublist ''$package_name$'' ''lib'' \<and>
   \<not> sublist ''$package_name$'' ''spec'' \<and>
   RenderLibraryName
     \<lparr>configs = [(configs scenario_heap ! 0)
          \<lparr>libraryNamingConvention := ''lib'', testNamingConvention := ''spec''\<rparr>],
      lists = [[]]\<rparr> (Ref 0) ''foo'' = Inr ''lib'' \<and>
   RenderTestName
     \<lparr>configs = [(configs scenario_heap ! 0)
          \<lparr>libraryNamingConvention := ''lib'', testNamingConvention := ''spec''\<rparr>],
      lists = [[]]\<rparr> (Ref 0) ''foo'' = Inr ''spec''"
proof -
  let ?plain = "\<lparr>configs = [(configs scenario_heap ! 0)
          \<lparr>libraryNamingConvention := ''lib'', testNamingConvention := ''spec''\<rparr>],
        lists = [[]]\<rparr>"
  have len: "0 < length (configs scenario_heap)" by (simp add: length_scenario_heap)
  have len': "0 < length (configs ?plain)" by simp
  have seg: "token_segments ''$package_name$'' ['''', '''']"
    "token_segments ''$package_name$'' ['''', ''_test'']"
    by code_simp+
  have tpl: "libraryNamingConvention (configs scenario_heap ! 0) =
               join_segments ''$package_name$'' ['''', '''']"
    "testNamingConvention (configs scenario_heap ! 0) =
               join_segments ''$package_name$'' ['''', ''_test'']"
    by (simp_all add: scenario_heap_def)
  have no: "\<not> sublist ''$package_name$'' ''lib''" "\<not> sublist ''$package_name$'' ''spec''"
    by code_simp+
  have tpl': "libraryNamingConvention (configs ?plain ! 0) = ''lib''"
    "testNamingConvention (configs ?plain ! 0) = ''spec''"
    by simp_all
  have "RenderLibraryName scenario_heap (Ref 0) ''foo'' =
          Inr (join_segments ''foo'' ['''', ''''])"
    using render_replaces_placeholder [OF len, of "''foo''"] seg(1) tpl(1) by blast
  then have 1: "RenderLibraryName scenario_heap (Ref 0) ''foo'' = Inr ''foo''" by simp
  have "RenderTestName scenario_heap (Ref 0) ''bar'' =
          Inr (join_segments ''bar'' ['''', ''_test''])"
    using render_replaces_placeholder [OF len, of "''bar''"] seg(2) tpl(2) by blast
  then have 2: "RenderTestName scenario_heap (Ref 0) ''bar'' = Inr ''bar_test''" by simp
  from render_replaces_placeholder [OF len', of "''foo''"] no tpl'
  have 3: "RenderLibraryName ?plain (Ref 0) ''foo'' = Inr ''lib''"
    and 4: "RenderTestName ?plain (Ref 0) ''foo'' = Inr ''spec''"
    by metis+
  from len len' seg tpl no 1 2 3 4 show ?thesis by (intro conjI)
qed

text \<open>
  C7. \<^verbatim>\<open>New\<close> returns the address of a new node with generation enabled, the
  environment \<^verbatim>\<open>other\<close>, a new and empty exclusion list, an empty ignore set, the
  validation of import statements enabled, the library template \<^verbatim>\<open>$package_name$\<close>,
  the test template \<^verbatim>\<open>$package_name$_test\<close> and no parent.
\<close>

theorem New_defaults:
  "(let (c, h') = New h r
    in c = Ref (length (configs h)) \<and>
       deref h' c =
         Inr \<lparr>parent = Nil,
              generationEnabled = True,
              repoRoot = r,
              environmentType = ''other'',
              excludedPatterns = Ref (length (lists h)),
              ignoreDependencies = Some {},
              validateImportStatements = True,
              libraryNamingConvention = ''$package_name$'',
              testNamingConvention = ''$package_name$_test''\<rparr> \<and>
       Parent h' c = Inr Nil \<and>
       GenerationEnabled h' c = Inr True \<and>
       ValidateImportStatements h' c = Inr True \<and>
       ExcludedPatterns_Values h' c = Inr [])"
  by (simp add: New_def singlylinkedlist_New_def alloc_def deref_def Parent_def
      GenerationEnabled_def ValidateImportStatements_def ExcludedPatterns_Values_def
      ExcludedPatterns_def singlylinkedlist_Values_def EnvironmentOther_def
      packageNameNamingConventionSubstitution_def)

text \<open>
  C8. \<^verbatim>\<open>AddIgnoreDependency\<close> and \<^verbatim>\<open>IgnoresDependency\<close> behave on a name as on the
  trimmed name. On a node whose map a constructor made, as it is on every node of a heap
  built by the package, adding \<^verbatim>\<open>"  x  "\<close> returns, and then both \<^verbatim>\<open>"x"\<close> and
  \<^verbatim>\<open>" x "\<close> are ignored. Adding a name whose trimmed form was added before leaves the
  heap as it is.
\<close>

theorem ignore_whitespace_normalization:
  "AddIgnoreDependency h c s = AddIgnoreDependency h c (TrimSpace s) \<and>
   IgnoresDependency h c s = IgnoresDependency h c (TrimSpace s) \<and>
   (a < length (configs h) \<longrightarrow> ignoreDependencies (configs h ! a) \<noteq> None \<longrightarrow>
      (\<exists>h1. AddIgnoreDependency h (Ref a) ''  x  '' = Inr h1 \<and>
            IgnoresDependency h1 (Ref a) ''x'' = Some (Inr True) \<and>
            IgnoresDependency h1 (Ref a) '' x '' = Some (Inr True))) \<and>
   (TrimSpace s = TrimSpace t \<longrightarrow> AddIgnoreDependency h c s = Inr h1 \<longrightarrow>
      AddIgnoreDependency h1 c t = Inr h1)"
proof -
  have "\<exists>h1. AddIgnoreDependency h (Ref a) ''  x  '' = Inr h1 \<and>
            IgnoresDependency h1 (Ref a) ''x'' = Some (Inr True) \<and>
            IgnoresDependency h1 (Ref a) '' x '' = Some (Inr True)"
    if a: "a < length (configs h)" and made: "ignoreDependencies (configs h ! a) \<noteq> None"
  proof -
    from made obtain ks where ks: "ignoreDependencies (configs h ! a) = Some ks" by blast
    let ?h1 = "h\<lparr>configs := (configs h)
              [a := (configs h ! a)\<lparr>ignoreDependencies :=
                      Some (insert (TrimSpace ''  x  '') ks)\<rparr>]\<rparr>"
    have "AddIgnoreDependency h (Ref a) ''  x  '' = Inr ?h1"
      using a ks by (rule AddIgnoreDependency_Ref)
    moreover have "IgnoresDependency ?h1 (Ref a) ''x'' = Some (Inr True)"
      by (rule IgnoresDependency_local) (simp_all add: a TrimSpace_x)
    moreover have "IgnoresDependency ?h1 (Ref a) '' x '' = Some (Inr True)"
      by (rule IgnoresDependency_local) (simp_all add: a TrimSpace_x)
    ultimately show ?thesis by blast
  qed
  then show ?thesis
    using AddIgnoreDependency_TrimSpace IgnoresDependency_TrimSpace AddIgnoreDependency_twice
    by blast
qed

theorem ignore_whitespace_normalization_witness:
  "0 < length (configs scenario_heap) \<and>
   ignoreDependencies (configs scenario_heap ! 0) \<noteq> None \<and>
   TrimSpace ''  x  '' = TrimSpace ''x'' \<and>
   (\<exists>h1. AddIgnoreDependency scenario_heap (Ref 0) ''  x  '' = Inr h1 \<and>
         AddIgnoreDependency h1 (Ref 0) ''x'' = Inr h1 \<and>
         IgnoresDependency h1 (Ref 0) ''x'' = Some (Inr True) \<and>
         IgnoresDependency h1 (Ref 0) '' x '' = Some (Inr True))"
proof -
  have len: "0 < length (configs scenario_heap)" by (simp add: length_scenario_heap)
  have made: "ignoreDependencies (configs scenario_heap ! 0) \<noteq> None"
    by (simp add: scenario_heap_def)
  have eq: "TrimSpace ''  x  '' = TrimSpace ''x''" by (simp add: TrimSpace_x)
  from ignore_whitespace_normalization
         [of scenario_heap "Ref 0" "''  x  ''" 0 "''x''"] len made eq
  show ?thesis by blast
qed

text \<open>
  C9. For every module name and every receiver, \<^verbatim>\<open>FindThirdPartyDependency\<close> returns
  the empty path and the flag false. It is a value, not an error, and the function has
  no heap to return: the state is as before.
\<close>

theorem FindThirdPartyDependency_not_found:
  "FindThirdPartyDependency h c modName = ('''', False)"
  by (simp add: FindThirdPartyDependency_def)

text \<open>
  C10. On a heap built by the package, \<^verbatim>\<open>NewChild\<close> on a node \<open>n\<close> returns and changes
  no object that was there before: the lists and the nodes of the old heap are what
  they were, so the node \<open>n\<close> has the same fields, and every query on \<open>n\<close> gives the
  same answer in the new heap as in the old one.
\<close>

theorem NewChild_frame_parent:
  assumes "wf_heap h" and "n < length (configs h)"
  shows "\<exists>c h1. NewChild h (Ref n) = Inr (c, h1) \<and>
           lists h1 = lists h \<and>
           take (length (configs h)) (configs h1) = configs h \<and>
           deref h1 (Ref n) = deref h (Ref n) \<and>
           Parent h1 (Ref n) = Parent h (Ref n) \<and>
           ExcludedPatterns h1 (Ref n) = ExcludedPatterns h (Ref n) \<and>
           ExcludedPatterns_Values h1 (Ref n) = ExcludedPatterns_Values h (Ref n) \<and>
           GenerationEnabled h1 (Ref n) = GenerationEnabled h (Ref n) \<and>
           ValidateImportStatements h1 (Ref n) = ValidateImportStatements h (Ref n) \<and>
           (\<forall>d. IgnoresDependency h1 (Ref n) d = IgnoresDependency h (Ref n) d) \<and>
           (\<forall>p. RenderLibraryName h1 (Ref n) p = RenderLibraryName h (Ref n) p) \<and>
           (\<forall>p. RenderTestName h1 (Ref n) p = RenderTestName h (Ref n) p) \<and>
           (\<forall>m. FindThirdPartyDependency h1 (Ref n) m = FindThirdPartyDependency h (Ref n) m)"
proof -
  let ?h1 = "h\<lparr>configs := configs h @
                 [(configs h ! n)\<lparr>parent := Ref n, ignoreDependencies := Some {}\<rparr>]\<rparr>"
  note frame = NewChild_frame [OF assms refl]
  have "ExcludedPatterns_Values ?h1 (Ref n) = ExcludedPatterns_Values h (Ref n)"
    by (rule ExcludedPatterns_Values_cong [OF frame(1,3)])
  with frame NewChild_Ref [OF assms(2)] show ?thesis
    by (intro exI [of _ "Ref (length (configs h))"] exI [of _ ?h1])
       (simp add: Parent_def ExcludedPatterns_def GenerationEnabled_def
          ValidateImportStatements_def RenderLibraryName_def RenderTestName_def
          FindThirdPartyDependency_def del: heap.simps)
qed

theorem NewChild_frame_parent_witness:
  "wf_heap scenario_heap \<and> 1 < length (configs scenario_heap) \<and>
   (\<exists>c h1. NewChild scenario_heap (Ref 1) = Inr (c, h1) \<and>
      deref h1 (Ref 1) = deref scenario_heap (Ref 1) \<and>
      IgnoresDependency h1 (Ref 1) ''left-pad'' = Some (Inr True))"
proof -
  have len: "1 < length (configs scenario_heap)" by (simp add: length_scenario_heap)
  have "IgnoresDependency scenario_heap (Ref 1) ''left-pad'' = Some (Inr True)"
    by (rule IgnoresDependency_local [OF len]) (simp add: TrimSpace_left_pad scenario_heap_def)
  with NewChild_frame_parent [OF wf_scenario_heap len] wf_scenario_heap len
  show ?thesis by metis
qed

end
